theory Spec2Isabelle
  imports Complex_Main "HOL-Library.Word" "HOL-Library.Signed_Division" "HOL-Library.Log_Nat"
begin

section \<open>Data model of main.go\<close>

text \<open>
  Go strings are byte sequences: \<open>len\<close> counts bytes and slicing cuts at byte offsets.
  They are modelled as \<^typ>\<open>string\<close> (a list of 8-bit characters), so \<^const>\<open>length\<close>
  is Go's \<open>len\<close>.

  A \<open>time.Duration\<close> is an \<open>int64\<close> count of nanoseconds: a 64-bit word, read as
  a signed number by \<^const>\<open>sint\<close>, whose \<open>+\<close> and \<open>-\<close> wrap around as Go's do.
  Go's \<open>int\<close> (64 bits on the platforms the tool is built for) is modelled as
  \<^typ>\<open>int\<close>; where the source adds up data in an \<open>int\<close>, the two's-complement
  wrap-around is written out with \<open>wrap64\<close>. Loop indices and lengths are bounded by
  the length of a slice and cannot wrap. A \<open>time.Time\<close> is modelled as its number of
  nanoseconds since the zero \<open>Time\<close> (January 1 of year 1, UTC), so the zero value of
  a \<open>time.Time\<close> field is \<open>0\<close>.

  A run-time panic and a returned \<open>error\<close> are values of the type \<open>error\<close>, and so
  is a step whose result Go leaves to the implementation; a function that may panic or
  fail returns \<open>error + 'a\<close>.
\<close>

datatype error = Panic string | Error string | ImplementationDependent string

type_synonym Duration = "64 word"

definition wrap64 :: "int \<Rightarrow> int" where
  "wrap64 x = (x + 2 ^ 63) mod 2 ^ 64 - 2 ^ 63"

definition defaultMaxRuns :: int where
  "defaultMaxRuns = 5"


definition defaultApiCacheTime :: string where
  "defaultApiCacheTime = ''60m''"

text \<open>
  The payload types that \<open>getWorkflows\<close> declares for the JSON it decodes. A
  \<open>total_ms\<close> is decoded into an \<open>int\<close>, so it lies in the 64-bit range.
\<close>

record workflowsPayload =
  Id :: int
  State :: string
  Name :: string
  URL :: string

record runPayload =
  Id :: int
  CreatedAt :: int
  UpdatedAt :: int
  Status :: string
  Conclusion :: string
  URL :: string

record billablePayload =
  MacOs_TotalMs :: int
  Windows_TotalMs :: int
  Ubuntu_TotalMs :: int

record run =
  Finished :: int
  Elapsed :: Duration
  Status :: string
  Conclusion :: string
  URL :: string

record workflow =
  Name :: string
  Runs :: "run list"
  BillableMs :: int

record repositoryData =
  Name :: string
  Private :: bool
  Workflows :: "workflow list"

section \<open>truncateWorkflowName\<close>

text \<open>
  The slice expression \<open>s[:n]\<close> of a string panics unless \<open>0 \<le> n \<le> len(s)\<close>.
\<close>

definition slice_to :: "string \<Rightarrow> int \<Rightarrow> error + string" where
  "slice_to s n =
     (if 0 \<le> n \<and> n \<le> int (length s) then Inr (take (nat n) s)
      else Inl (Panic ''slice bounds out of range''))"

definition truncateWorkflowName :: "string \<Rightarrow> int \<Rightarrow> error + string" where
  "truncateWorkflowName name length' =
     (if int (length name) > length' then
        (case slice_to name length' of
           Inl e \<Rightarrow> Inl e
         | Inr s \<Rightarrow> Inr (s @ ''...''))
      else Inr name)"

section \<open>RenderHealth\<close>

text \<open>
  The three lipgloss styles differ in their foreground colour only. \<open>Style.Render\<close> is a
  function of the external styling library; a rendered symbol is kept as the pair of the
  style and the text it wraps, and the string \<open>results\<close> that the source builds by
  concatenation is the list of these symbols in order.
\<close>

datatype style = successStyle | neutralStyle | failedStyle

datatype rendered = Render style string

text \<open>The check mark U+2713, as its three UTF-8 bytes.\<close>

definition check_mark :: string where
  "check_mark = [CHR 0xE2, CHR 0x9C, CHR 0x93]"

fun RenderHealth_loop :: "int \<Rightarrow> run list \<Rightarrow> rendered list \<Rightarrow> rendered list" where
  "RenderHealth_loop i [] results = results"
| "RenderHealth_loop i (r # rs) results =
     (if i > defaultMaxRuns then results
      else if run.Status r \<noteq> ''completed'' then
        RenderHealth_loop (i + 1) rs (results @ [Render neutralStyle ''-''])
      else if run.Conclusion r = ''success'' then
        RenderHealth_loop (i + 1) rs (results @ [Render successStyle check_mark])
      else if run.Conclusion r \<in> {''skipped'', ''cancelled'', ''neutral''} then
        RenderHealth_loop (i + 1) rs (results @ [Render neutralStyle ''-''])
      else
        RenderHealth_loop (i + 1) rs (results @ [Render failedStyle ''x'']))"

definition RenderHealth :: "workflow \<Rightarrow> rendered list" where
  "RenderHealth w = RenderHealth_loop 0 (Runs w) []"

section \<open>time.Time.Sub, time.Since and Duration.Seconds\<close>

definition minDuration :: int where
  "minDuration = - (2 ^ 63)"

definition maxDuration :: int where
  "maxDuration = 2 ^ 63 - 1"

text \<open>
  \<open>t.Sub(u)\<close> is the duration \<open>t - u\<close>, and the maximum (or minimum) duration if the
  difference exceeds what a \<open>Duration\<close> can store. \<open>time.Since(t)\<close> is
  \<open>time.Now().Sub(t)\<close>; the reading of the clock that this call of \<open>time.Now\<close> returns
  is the parameter \<open>now\<close>.
\<close>

definition time_Sub :: "int \<Rightarrow> int \<Rightarrow> Duration" where
  "time_Sub t u =
     (if t - u < minDuration then word_of_int minDuration
      else if maxDuration < t - u then word_of_int maxDuration
      else word_of_int (t - u))"

definition time_Since :: "int \<Rightarrow> int \<Rightarrow> Duration" where
  "time_Since now t = time_Sub now t"

text \<open>
  \<open>Duration.Seconds\<close> is floating-point arithmetic on \<open>float64\<close>:
  \<^verbatim>\<open>
  func (d Duration) Seconds() float64 {
      sec := d / Second
      nsec := d % Second
      return float64(sec) + float64(nsec)/1e9
  }
  \<close>
  A finite \<open>float64\<close> is a rational number. Every operation returns the exact result
  rounded to the nearest number with a 53-bit significand, ties to the even significand
  (IEEE 754 binary64); \<open>float64 x\<close> is that rounding of the exact value \<open>x\<close>. The
  exponent range of binary64 plays no role: the values that occur lie between
  \<open>10\<^sup>-\<^sup>9\<close> and \<open>2\<^sup>3\<^sup>4\<close> in absolute value, or are zero.
  \<open>ilog2 x\<close> is the exponent \<open>e\<close> with \<open>2\<^sup>e \<le> x < 2\<^sup>e\<^sup>+\<^sup>1\<close> of a positive \<open>x\<close>.
\<close>

definition ilog2 :: "rat \<Rightarrow> int" where
  "ilog2 x = (if 1 \<le> x then bitlen \<lfloor>x\<rfloor> - 1 else - bitlen (\<lceil>1 / x\<rceil> - 1))"

definition round_even :: "rat \<Rightarrow> int" where
  "round_even x =
     (let f = \<lfloor>x\<rfloor>; d = x - of_int f
      in if d < 1 / 2 then f
         else if 1 / 2 < d then f + 1
         else if even f then f else f + 1)"

definition float64 :: "rat \<Rightarrow> rat" where
  "float64 x =
     (if x = 0 then 0
      else let u = 2 powi (ilog2 \<bar>x\<bar> - 52) in of_int (round_even (x / u)) * u)"

text \<open>Go's \<open>/\<close> and \<open>%\<close> on integers truncate towards zero: \<open>sdiv\<close> and \<open>smod\<close>.\<close>

definition Seconds_of :: "int \<Rightarrow> rat" where
  "Seconds_of d =
     (let sec = d sdiv 1000000000;
          nsec = d smod 1000000000
      in float64 (float64 (of_int sec) + float64 (float64 (of_int nsec) / 1000000000)))"

definition Seconds :: "Duration \<Rightarrow> rat" where
  "Seconds d = Seconds_of (sint d)"

text \<open>The conversion \<open>int(f)\<close> of a \<open>float64\<close> discards the fraction (towards zero).\<close>

definition int_of_float64 :: "rat \<Rightarrow> int" where
  "int_of_float64 x = (if 0 \<le> x then \<lfloor>x\<rfloor> else \<lceil>x\<rceil>)"

section \<open>AverageElapsed\<close>

fun AverageElapsed_loop :: "int \<Rightarrow> run list \<Rightarrow> int \<Rightarrow> int" where
  "AverageElapsed_loop i [] totalTime = totalTime"
| "AverageElapsed_loop i (r # rs) totalTime =
     (if i > defaultMaxRuns then totalTime
      else AverageElapsed_loop (i + 1) rs
             (wrap64 (totalTime + int_of_float64 (Seconds (Elapsed r)))))"

text \<open>
  \<open>fmt.Sprintf("%ds", averageTime)\<close> prints the decimal number followed by the unit
  \<open>s\<close>, and \<open>time.ParseDuration\<close> reads it back: a sign, the digits \<open>v\<close> and the unit.
  It fails with an error if \<open>v\<close> exceeds \<open>2\<^sup>6\<^sup>3 / 10\<^sup>9\<close> (in integers), since
  \<open>v\<close> seconds are then no \<open>Duration\<close>; otherwise the result is \<open>v\<close> times
  \<open>10\<^sup>9\<close> nanoseconds with the sign.
\<close>

definition ParseDuration_seconds :: "int \<Rightarrow> error + Duration" where
  "ParseDuration_seconds v =
     (if \<bar>v\<bar> > 2 ^ 63 div 1000000000 then Inl (Error ''time: invalid duration'')
      else Inr (word_of_int (v * 1000000000)))"

text \<open>
  \<open>d, _ := time.ParseDuration(s)\<close> drops the error; \<open>d\<close> is then the zero duration
  that \<open>ParseDuration\<close> returns with an error.
\<close>

definition AverageElapsed :: "workflow \<Rightarrow> Duration" where
  "AverageElapsed w =
     (let totalTime = AverageElapsed_loop 0 (Runs w) 0;
          averageTime = totalTime sdiv defaultMaxRuns
      in case ParseDuration_seconds averageTime of
           Inl e \<Rightarrow> 0
         | Inr d \<Rightarrow> d)"

section \<open>getWorkflows\<close>

text \<open>
  \<open>gh\<close> runs the external command-line client and returns what it printed, or an
  error; \<open>json.Unmarshal\<close> then decodes the output, or fails. What the outside world
  answers to a request is a parameter of the model: for each of the three kinds of
  request, a function from the path requested to the outcome, which is a failure of
  \<open>gh\<close> (with its error message), an output that does not decode (with the decoder's
  message), or the decoded payload. The clock is part of the world, too: every call of
  \<open>time.Since\<close> reads it anew, and \<open>time_Now wld k\<close> is what the clock shows at the
  call number \<open>k\<close> (counted from 0) during a call of \<open>getWorkflows\<close>. The model threads
  the number of readings taken so far. Nothing is assumed about the readings; they need
  not increase.

  To tell which requests are made, every call of \<open>gh\<close> is recorded: the model threads
  the list of the argument lists of the calls made so far, in order.
\<close>

datatype 'a fetched = GhFails string | BadJson string | Fetched 'a

record world =
  time_Now :: "nat \<Rightarrow> int"
  workflows_api :: "string \<Rightarrow> workflowsPayload list fetched"
  runs_api :: "string \<Rightarrow> runPayload list fetched"
  timing_api :: "string \<Rightarrow> billablePayload fetched"

definition gh_args :: "string \<Rightarrow> string \<Rightarrow> string list" where
  "gh_args path jq = [''api'', ''--cache'', defaultApiCacheTime, path, ''--jq'', jq]"

definition strings_HasPrefix :: "string \<Rightarrow> string \<Rightarrow> bool" where
  "strings_HasPrefix s p = (take (length p) s = p)"

text \<open>
  The loop over the run payloads of one workflow (the run filter). \<open>clock\<close> gives the
  readings of the clock and \<open>reads\<close> counts the readings taken so far: the clock is read
  once for every completed run, by \<open>time.Since\<close>, and not at all for the other runs. The
  loop returns the runs kept and the new count of readings.
\<close>

fun filterRuns ::
  "Duration \<Rightarrow> (nat \<Rightarrow> int) \<Rightarrow> runPayload list \<Rightarrow> run list \<Rightarrow> nat \<Rightarrow> run list \<times> nat" where
  "filterRuns last' clock [] runs reads = (runs, reads)"
| "filterRuns last' clock (r # rs) runs reads =
     (let rr = \<lparr>Finished = 0, Elapsed = 0, Status = runPayload.Status r,
                Conclusion = runPayload.Conclusion r, URL = runPayload.URL r\<rparr>
      in if runPayload.Status r = ''completed'' then
           (let rr = rr\<lparr>Finished := UpdatedAt r\<rparr>;
                rr = rr\<lparr>Elapsed := time_Sub (UpdatedAt r) (CreatedAt r)\<rparr>;
                finishedAgo = time_Since (clock reads) (Finished rr);
                reads = reads + 1
            in if 0 <s last' - finishedAgo then filterRuns last' clock rs (runs @ [rr]) reads
               else filterRuns last' clock rs runs reads)
         else filterRuns last' clock rs runs reads)"

text \<open>
  The loop over the filtered runs of one workflow of a private repository. It returns
  the calls recorded and either the error returned or the new value of \<open>totalMs\<close>.
\<close>

fun billable_loop ::
  "world \<Rightarrow> run list \<Rightarrow> int \<Rightarrow> string list list \<Rightarrow> string list list \<times> (error + int)" where
  "billable_loop wld [] totalMs calls = (calls, Inr totalMs)"
| "billable_loop wld (r # rs) totalMs calls =
     (let runTimingPath = run.URL r @ ''/timing'';
          calls = calls @ [gh_args runTimingPath ''.billable'']
      in case timing_api wld runTimingPath of
           GhFails e \<Rightarrow> (calls, Inl (Error (''could not call gh: '' @ e)))
         | BadJson e \<Rightarrow> (calls, Inl (Error (''could not parse json: '' @ e)))
         | Fetched bp \<Rightarrow>
             billable_loop wld rs
               (wrap64 (totalMs + (MacOs_TotalMs bp + Windows_TotalMs bp + Ubuntu_TotalMs bp)))
               calls)"

text \<open>
  The loop over the workflows of the repository. \<open>totalMs\<close> is declared before the
  loop and is a parameter of it, as \<open>out\<close> is; so are the calls recorded and the number
  of clock readings taken.
\<close>

fun workflows_loop ::
  "repositoryData \<Rightarrow> Duration \<Rightarrow> world \<Rightarrow> workflowsPayload list \<Rightarrow> int \<Rightarrow> workflow list \<Rightarrow>
   string list list \<Rightarrow> nat \<Rightarrow> string list list \<times> (error + workflow list)" where
  "workflows_loop repoData last' wld [] totalMs out calls reads = (calls, Inr out)"
| "workflows_loop repoData last' wld (w # p) totalMs out calls reads =
     (if strings_HasPrefix (State w) ''disabled'' then
        workflows_loop repoData last' wld p totalMs out calls reads
      else
        (let runsPath = workflowsPayload.URL w @ ''/runs'';
             calls = calls @ [gh_args runsPath ''.workflow_runs'']
         in case runs_api wld runsPath of
              GhFails e \<Rightarrow> (calls, Inl (Error (''could not call gh: '' @ e)))
            | BadJson e \<Rightarrow> (calls, Inl (Error (''could not parse json: '' @ e)))
            | Fetched rs \<Rightarrow>
                (case filterRuns last' (time_Now wld) rs [] reads of
                   (runs, reads) \<Rightarrow>
                     if Private repoData then
                       (case billable_loop wld runs totalMs calls of
                          (calls, Inl e) \<Rightarrow> (calls, Inl e)
                        | (calls, Inr totalMs) \<Rightarrow>
                            workflows_loop repoData last' wld p totalMs
                              (out @ [\<lparr>workflow.Name = workflowsPayload.Name w, Runs = runs,
                                       BillableMs = totalMs\<rparr>])
                              calls reads)
                     else
                       workflows_loop repoData last' wld p totalMs
                         (out @ [\<lparr>workflow.Name = workflowsPayload.Name w, Runs = runs,
                                  BillableMs = totalMs\<rparr>])
                         calls reads)))"

definition getWorkflows ::
  "repositoryData \<Rightarrow> Duration \<Rightarrow> world \<Rightarrow> string list list \<times> (error + workflow list)" where
  "getWorkflows repoData last' wld =
     (let workflowsPath = ''repos/'' @ repositoryData.Name repoData @ ''/actions/workflows'';
          calls = [gh_args workflowsPath ''.workflows'']
      in case workflows_api wld workflowsPath of
           GhFails e \<Rightarrow> (calls, Inl (Error e))
         | BadJson e \<Rightarrow> (calls, Inl (Error e))
         | Fetched p \<Rightarrow> workflows_loop repoData last' wld p 0 [] calls 0)"

section \<open>The total billable time in _main\<close>

text \<open>
  \<open>_main\<close> adds the \<open>BillableMs\<close> of every workflow that \<open>getWorkflows\<close> returned into
  \<open>totalBillableMs\<close>, which it prints in the header as the total billable time.
\<close>

fun totalBillableMs_loop :: "workflow list \<Rightarrow> int \<Rightarrow> int" where
  "totalBillableMs_loop [] totalBillableMs = totalBillableMs"
| "totalBillableMs_loop (w # workflows) totalBillableMs =
     totalBillableMs_loop workflows (wrap64 (totalBillableMs + BillableMs w))"

section \<open>The rows of cards in _main\<close>

text \<open>
  The part of \<open>_main\<close> that arranges the cards of one repository:
  \<^verbatim>\<open>
  totalRows := int(math.Ceil(float64(len(r.Workflows)) / float64(cardsPerRow)))
  cardRows := make([][]string, totalRows)
  rowIndex := 0
  for _, w := range r.Workflows {
      if len(cardRows[rowIndex]) == cardsPerRow {
          rowIndex++
      }
      cardRows[rowIndex] = append(cardRows[rowIndex], cardStyle.Render(w.RenderCard()))
  }
  \<close>
  and then prints the rows in order. The text of a card comes from the template and
  styling libraries and plays no role in the arrangement: \<open>renderCard w\<close> stands for
  \<open>cardStyle.Render(w.RenderCard())\<close>.

  An index expression \<open>cardRows[rowIndex]\<close> panics unless
  \<open>0 \<le> rowIndex < len(cardRows)\<close>; the loop evaluates one in the condition and, after
  the increment, in the assignment.
\<close>

definition index_ok :: "'a list \<Rightarrow> int \<Rightarrow> bool" where
  "index_ok xs i = (0 \<le> i \<and> i < int (length xs))"

fun cardRows_loop ::
  "(workflow \<Rightarrow> 'c) \<Rightarrow> int \<Rightarrow> workflow list \<Rightarrow> 'c list list \<Rightarrow> int \<Rightarrow>
   error + ('c list list \<times> int)" where
  "cardRows_loop renderCard cardsPerRow [] cardRows rowIndex = Inr (cardRows, rowIndex)"
| "cardRows_loop renderCard cardsPerRow (w # ws) cardRows rowIndex =
     (if \<not> index_ok cardRows rowIndex then Inl (Panic ''index out of range'')
      else
        (let rowIndex =
               (if int (length (cardRows ! nat rowIndex)) = cardsPerRow then rowIndex + 1
                else rowIndex)
         in if \<not> index_ok cardRows rowIndex then Inl (Panic ''index out of range'')
            else cardRows_loop renderCard cardsPerRow ws
                   (cardRows[nat rowIndex := cardRows ! nat rowIndex @ [renderCard w]]) rowIndex))"

text \<open>
  \<open>totalRows\<close> is computed in \<open>float64\<close>. Below \<open>2\<^sup>5\<^sup>3\<close> both operands are
  converted exactly and the rounding of the quotient does not move its ceiling (lemma
  \<open>float64_quotient_ceiling\<close> below); \<open>2\<^sup>5\<^sup>3\<close> workflows are more than a slice can
  hold, and \<open>cardsPerRow\<close> is less than the width of the terminal. The quotient is
  therefore taken as the exact one. With \<open>cardsPerRow = 0\<close> the quotient is infinite or not a
  number, and what its conversion to \<open>int\<close> gives is left to the implementation.
  \<open>make\<close> panics if the length is negative.
\<close>

definition cardRows ::
  "(workflow \<Rightarrow> 'c) \<Rightarrow> int \<Rightarrow> workflow list \<Rightarrow> error + 'c list list" where
  "cardRows renderCard cardsPerRow workflows =
     (if cardsPerRow = 0 then Inl (ImplementationDependent ''int of a float64 that is no number'')
      else
        (let totalRows = \<lceil>rat_of_nat (length workflows) / rat_of_int cardsPerRow\<rceil>
         in if totalRows < 0 then Inl (Panic ''makeslice: len out of range'')
            else
              (case cardRows_loop renderCard cardsPerRow workflows (replicate (nat totalRows) []) 0 of
                 Inl e \<Rightarrow> Inl e
               | Inr (rows, rowIndex) \<Rightarrow> Inr rows)))"

section \<open>The properties as the specification words them\<close>

text \<open>
  The health symbols of the specification, the symbol it assigns to a run, and how
  \<open>RenderHealth\<close> paints each symbol: \<open>neutral\<close> and \<open>neutral_unknown\<close> are both the
  grey dash.
\<close>

datatype symbol = pass | fail | neutral | neutral_unknown

definition symbol_of :: "run \<Rightarrow> symbol" where
  "symbol_of r =
     (if run.Status r \<noteq> ''completed'' then neutral_unknown
      else if run.Conclusion r = ''success'' then pass
      else if run.Conclusion r \<in> {''skipped'', ''cancelled'', ''neutral''} then neutral
      else fail)"

fun paint :: "symbol \<Rightarrow> rendered" where
  "paint pass = Render successStyle check_mark"
| "paint fail = Render failedStyle ''x''"
| "paint neutral = Render neutralStyle ''-''"
| "paint neutral_unknown = Render neutralStyle ''-''"

definition completed_run :: "string \<Rightarrow> run" where
  "completed_run c =
     \<lparr>Finished = 0, Elapsed = 0, Status = ''completed'', Conclusion = c, URL = []\<rparr>"




text \<open>
  The run filter: the run that the filter builds from a payload, and the condition of
  the specification, \<open>status == completed\<close> and \<open>(now - finishedAt) < window\<close>, where the
  difference is the \<open>Duration\<close> that \<open>time.Since\<close> returns and \<open>now\<close> is the reading of
  the clock taken for this run. \<open>fits_Duration k\<close> says that the integer \<open>k\<close> is a value
  of \<open>Duration\<close>.
\<close>

definition Hour :: Duration where
  "Hour = 3600000000000"

definition run_of :: "runPayload \<Rightarrow> run" where
  "run_of r =
     \<lparr>Finished = UpdatedAt r, Elapsed = time_Sub (UpdatedAt r) (CreatedAt r),
      Status = runPayload.Status r, Conclusion = runPayload.Conclusion r,
      URL = runPayload.URL r\<rparr>"

definition in_window :: "Duration \<Rightarrow> int \<Rightarrow> runPayload \<Rightarrow> bool" where
  "in_window last' now r =
     (runPayload.Status r = ''completed'' \<and> time_Since now (UpdatedAt r) <s last')"

definition fits_Duration :: "int \<Rightarrow> bool" where
  "fits_Duration k = (minDuration \<le> k \<and> k \<le> maxDuration)"

text \<open>
  The same condition with the window on the other side, \<open>window - (now - finishedAt) > 0\<close>,
  where the subtraction from the window is reduced to the signed 64-bit range of
  nanoseconds.
\<close>

definition in_window_wrapped :: "Duration \<Rightarrow> int \<Rightarrow> runPayload \<Rightarrow> bool" where
  "in_window_wrapped last' now r =
     (runPayload.Status r = ''completed''
      \<and> 0 < wrap64 (sint last' - sint (time_Since now (UpdatedAt r))))"

text \<open>
  The runs of an input, each with the reading of the clock at which the filter examines
  it: the readings are used up by the completed runs, one each, in the order of the
  input. (A run that is not completed takes no reading; it is paired with the reading
  that comes next, which its fate does not depend on.) \<open>readings_taken rs\<close> is the
  number of readings that the runs \<open>rs\<close> use up.
\<close>

fun examined :: "(nat \<Rightarrow> int) \<Rightarrow> nat \<Rightarrow> runPayload list \<Rightarrow> (int \<times> runPayload) list" where
  "examined clock reads [] = []"
| "examined clock reads (r # rs) =
     (clock reads, r)
       # examined clock (if runPayload.Status r = ''completed'' then reads + 1 else reads) rs"

definition readings_taken :: "runPayload list \<Rightarrow> nat" where
  "readings_taken rs = length (filter (\<lambda>r. runPayload.Status r = ''completed'') rs)"

text \<open>
  The billable time of a list of runs as the specification defines it: the sum of the
  three platform totals of the timing record of each run. A request for the timing of
  a run is a call of \<open>gh\<close> with the filter \<open>.billable\<close>.
\<close>

fun billable_due :: "world \<Rightarrow> run list \<Rightarrow> int" where
  "billable_due wld [] = 0"
| "billable_due wld (r # rs) =
     (case timing_api wld (run.URL r @ ''/timing'') of
        Fetched bp \<Rightarrow> MacOs_TotalMs bp + Windows_TotalMs bp + Ubuntu_TotalMs bp
      | GhFails e \<Rightarrow> 0
      | BadJson e \<Rightarrow> 0) + billable_due wld rs"

definition is_billing_call :: "string list \<Rightarrow> bool" where
  "is_billing_call args = (drop 4 args = [''--jq'', ''.billable''])"

text \<open>Cutting a list into consecutive rows of \<open>n\<close> elements, the last one possibly shorter.\<close>

fun chunks :: "nat \<Rightarrow> 'a list \<Rightarrow> 'a list list" where
  "chunks n xs = (if n = 0 \<or> xs = [] then [] else take n xs # chunks n (drop n xs))"

declare chunks.simps [simp del]

text \<open>
  The whole seconds that \<open>AverageElapsed\<close> adds up for a run, \<open>int(r.Elapsed.Seconds())\<close>,
  and the elapsed duration of a run cut down to whole seconds in integer arithmetic,
  towards zero. \<open>below_2_24_seconds r\<close> says that the elapsed duration of \<open>r\<close> is less
  than \<open>2\<^sup>2\<^sup>4\<close> seconds (about 194 days) in absolute value.
\<close>

definition whole_seconds :: "run \<Rightarrow> int" where
  "whole_seconds r = int_of_float64 (Seconds (Elapsed r))"

definition truncated_seconds :: "run \<Rightarrow> int" where
  "truncated_seconds r = sint (Elapsed r) sdiv 1000000000"

definition below_2_24_seconds :: "run \<Rightarrow> bool" where
  "below_2_24_seconds r = (\<bar>sint (Elapsed r)\<bar> < 2 ^ 24 * 1000000000)"

section \<open>Sample inputs\<close>

text \<open>
  A clock that advances by a millisecond from one reading to the next.

  A repository with three enabled workflows. \<open>build\<close> and \<open>test\<close> have one run each,
  completed an hour before the first clock reading; \<open>docs\<close> has no runs. The timing
  records bill 1000 ms for the run of \<open>build\<close> and 2000 ms for the run of \<open>test\<close>.
\<close>

definition sample_now :: int where
  "sample_now = 63900000000000000000"

definition sample_clock :: "nat \<Rightarrow> int" where
  "sample_clock k = sample_now + int k * 1000000"

definition sample_run :: "int \<Rightarrow> string \<Rightarrow> runPayload" where
  "sample_run n u =
     \<lparr>Id = n, CreatedAt = sample_now - 7200000000000, UpdatedAt = sample_now - 3600000000000,
      Status = ''completed'', Conclusion = ''success'', URL = u\<rparr>"

definition sample_world :: world where
  "sample_world =
     \<lparr>time_Now = sample_clock,
      workflows_api = (\<lambda>path. Fetched
         [\<lparr>workflowsPayload.Id = 1, State = ''active'', Name = ''build'', URL = ''wf/1''\<rparr>,
          \<lparr>workflowsPayload.Id = 2, State = ''active'', Name = ''docs'', URL = ''wf/2''\<rparr>,
          \<lparr>workflowsPayload.Id = 3, State = ''active'', Name = ''test'', URL = ''wf/3''\<rparr>]),
      runs_api = (\<lambda>path.
         if path = ''wf/1/runs'' then Fetched [sample_run 11 ''run/11'']
         else if path = ''wf/3/runs'' then Fetched [sample_run 31 ''run/31'']
         else Fetched []),
      timing_api = (\<lambda>path.
         if path = ''run/11/timing''
         then Fetched \<lparr>MacOs_TotalMs = 0, Windows_TotalMs = 0, Ubuntu_TotalMs = 1000\<rparr>
         else Fetched \<lparr>MacOs_TotalMs = 500, Windows_TotalMs = 500, Ubuntu_TotalMs = 1000\<rparr>)\<rparr>"

definition sample_repo :: "bool \<Rightarrow> repositoryData" where
  "sample_repo private =
     \<lparr>repositoryData.Name = ''octo/site'', Private = private, Workflows = []\<rparr>"

definition sample_finished_run :: "string \<Rightarrow> run" where
  "sample_finished_run u =
     \<lparr>Finished = sample_now - 3600000000000, Elapsed = Hour, Status = ''completed'',
      Conclusion = ''success'', URL = u\<rparr>"

definition sample_build :: workflow where
  "sample_build =
     \<lparr>workflow.Name = ''build'', Runs = [sample_finished_run ''run/11''], BillableMs = 1000\<rparr>"

definition sample_docs :: workflow where
  "sample_docs = \<lparr>workflow.Name = ''docs'', Runs = [], BillableMs = 1000\<rparr>"

definition sample_test :: workflow where
  "sample_test =
     \<lparr>workflow.Name = ''test'', Runs = [sample_finished_run ''run/31''], BillableMs = 3000\<rparr>"

text \<open>
  Workflows whose runs took 90 and 31.5 seconds; 90.25 and 31 seconds;
  16777219.999999999 seconds; and 16777219 seconds.
\<close>

definition timed_run :: "Duration \<Rightarrow> run" where
  "timed_run d =
     \<lparr>Finished = sample_now, Elapsed = d, Status = ''completed'', Conclusion = ''success'',
      URL = ''run/1''\<rparr>"

definition sample_quick :: workflow where
  "sample_quick =
     \<lparr>workflow.Name = ''quick'', Runs = [timed_run 90000000000, timed_run 31500000000],
      BillableMs = 0\<rparr>"

definition sample_quick_b :: workflow where
  "sample_quick_b =
     \<lparr>workflow.Name = ''quick'', Runs = [timed_run 90250000000, timed_run 31000000000],
      BillableMs = 0\<rparr>"

definition sample_long_a :: workflow where
  "sample_long_a =
     \<lparr>workflow.Name = ''long'', Runs = [timed_run 16777219999999999], BillableMs = 0\<rparr>"

definition sample_long_b :: workflow where
  "sample_long_b =
     \<lparr>workflow.Name = ''long'', Runs = [timed_run 16777219000000000], BillableMs = 0\<rparr>"

text \<open>
  A workflow with six runs whose elapsed duration is the maximum duration, which is what
  \<open>Sub\<close> returns for a completed run whose payload has no \<open>created_at\<close>.
\<close>

definition sample_endless :: workflow where
  "sample_endless =
     \<lparr>workflow.Name = ''endless'', Runs = replicate 6 (timed_run (word_of_int maxDuration)),
      BillableMs = 0\<rparr>"

text \<open>
  A completed run whose \<open>updated_at\<close> lies more than 292 years after the clock reading;
  one that finished 30 hours before the second reading of the sample clock; and one that
  finished half a millisecond less than 24 hours before its third reading.
\<close>

definition future_run :: runPayload where
  "future_run =
     \<lparr>Id = 1, CreatedAt = 73200000000000000000, UpdatedAt = 73200000060000000000,
      Status = ''completed'', Conclusion = ''success'', URL = ''run/1''\<rparr>"

definition stale_run :: runPayload where
  "stale_run =
     \<lparr>Id = 2, CreatedAt = sample_now - 109000000000000,
      UpdatedAt = sample_now + 1000000 - 108000000000000,
      Status = ''completed'', Conclusion = ''success'', URL = ''run/2''\<rparr>"

definition edge_run :: runPayload where
  "edge_run =
     \<lparr>Id = 3, CreatedAt = sample_now - 87000000000000,
      UpdatedAt = sample_now + 2000000 - 86400000000000 + 500000,
      Status = ''completed'', Conclusion = ''success'', URL = ''run/3''\<rparr>"


section \<open>Name truncation\<close>






text \<open>
  The limit is an \<open>int\<close> in the source. With a limit that is negative, which is no
  length, every name is longer than the limit and the slice expression \<open>name[:length]\<close>
  panics.
\<close>

lemma truncateWorkflowName_negative:
  "truncateWorkflowName ''build'' (- 1) = Inl (Panic ''slice bounds out of range'')"
  by (simp add: truncateWorkflowName_def slice_to_def)

section \<open>Health symbols\<close>

lemma RenderHealth_loop_eq:
  "0 \<le> i \<Longrightarrow> RenderHealth_loop i rs acc =
     acc @ map (\<lambda>r. paint (symbol_of r)) (take (nat (defaultMaxRuns + 1 - i)) rs)"
proof (induction rs arbitrary: i acc)
  case Nil
  then show ?case by simp
next
  case (Cons r rs)
  show ?case
  proof (cases "i > defaultMaxRuns")
    case True
    then show ?thesis by simp
  next
    case False
    then have n: "nat (defaultMaxRuns + 1 - i) = Suc (nat (defaultMaxRuns + 1 - (i + 1)))"
      by simp
    from Cons.prems have i1: "0 \<le> i + 1" by simp
    show ?thesis
      using False by (simp add: Cons.IH [OF i1] n symbol_of_def del: take_Suc_Cons) simp
  qed
qed

text \<open>
  Claim C5. For every workflow, \<open>RenderHealth\<close> produces one symbol per run examined, in
  input order, over the first \<open>N + 1\<close> runs (\<open>N = defaultMaxRuns = 5\<close>), hence at most
  \<open>N + 1\<close> symbols; the symbol of a run is \<open>neutral_unknown\<close> if its status is not
  \<open>completed\<close>, \<open>pass\<close> if its conclusion is \<open>success\<close>, \<open>neutral\<close> if its conclusion is
  \<open>skipped\<close>, \<open>cancelled\<close> or \<open>neutral\<close>, and \<open>fail\<close> otherwise. Completed runs with the
  conclusions success, failure, skipped, success, success yield pass, fail, neutral,
  pass, pass.
\<close>

theorem RenderHealth_symbols:
  "RenderHealth w = map (\<lambda>r. paint (symbol_of r)) (take (nat (defaultMaxRuns + 1)) (Runs w))
   \<and> length (RenderHealth w) \<le> nat (defaultMaxRuns + 1)
   \<and> defaultMaxRuns = 5
   \<and> RenderHealth
        \<lparr>workflow.Name = n,
         Runs = map completed_run [''success'', ''failure'', ''skipped'', ''success'', ''success''],
         BillableMs = b\<rparr>
       = map paint [pass, fail, neutral, pass, pass]"
proof -
  have eq: "RenderHealth v =
      map (\<lambda>r. paint (symbol_of r)) (take (nat (defaultMaxRuns + 1)) (Runs v))" for v
    by (simp add: RenderHealth_def RenderHealth_loop_eq)
  have len: "length (RenderHealth w) \<le> nat (defaultMaxRuns + 1)"
    by (simp add: eq)
  show ?thesis
    using len by (simp add: eq) (simp add: defaultMaxRuns_def symbol_of_def completed_run_def)
qed

section \<open>Rows of cards\<close>

lemma chunks_Nil [simp]: "chunks n [] = []"
  by (simp add: chunks.simps)

lemma chunks_step:
  "0 < n \<Longrightarrow> xs \<noteq> [] \<Longrightarrow> chunks n xs = take n xs # chunks n (drop n xs)"
  by (subst chunks.simps) simp

lemma concat_chunks: "0 < n \<Longrightarrow> concat (chunks n xs) = xs"
proof (induction n xs rule: chunks.induct)
  case (1 n xs)
  then show ?case by (cases "xs = []") (simp_all add: chunks_step)
qed

lemma rows_needed_step:
  fixes m n :: nat
  assumes "0 < n" "0 < m"
  shows "(m + n - 1) div n = Suc ((m - n + n - 1) div n)"
proof -
  have e: "m + n - 1 = (m - 1) + n" using assms by simp
  have "(m - 1 + n) div n = (m - 1) div n + 1"
    using assms by (subst div_add_self2) simp_all
  then have l: "(m + n - 1) div n = (m - 1) div n + 1"
    by (simp only: e)
  show ?thesis
  proof (cases "m \<le> n")
    case True
    then have "(m - 1) div n = 0" "(m - n + n - 1) div n = 0" using assms by simp_all
    with l show ?thesis by simp
  next
    case False
    then have "m - n + n - 1 = m - 1" by simp
    with l show ?thesis by simp
  qed
qed

lemma length_chunks: "0 < n \<Longrightarrow> length (chunks n xs) = (length xs + n - 1) div n"
proof (induction n xs rule: chunks.induct)
  case (1 n xs)
  show ?case
  proof (cases "xs = []")
    case True
    with 1 show ?thesis by simp
  next
    case False
    then have pos: "0 < length xs" by simp
    have ih: "length (chunks n (drop n xs)) = (length xs - n + n - 1) div n"
      using 1 False by simp
    show ?thesis
      using rows_needed_step [OF "1.prems" pos] ih "1.prems" False by (simp add: chunks_step)
  qed
qed

lemma chunks_rows_full:
  "0 < n \<Longrightarrow> Suc j < length (chunks n xs) \<Longrightarrow> length (chunks n xs ! j) = n"
proof (induction n xs arbitrary: j rule: chunks.induct)
  case (1 n xs)
  show ?case
  proof (cases "xs = []")
    case True
    with 1 show ?thesis by simp
  next
    case False
    with 1 have eq: "chunks n xs = take n xs # chunks n (drop n xs)" by (simp add: chunks_step)
    from 1 eq have ne: "chunks n (drop n xs) \<noteq> []" by auto
    then have "drop n xs \<noteq> []" by auto
    then have len: "n < length xs" by simp
    show ?thesis
    proof (cases j)
      case 0
      with eq len show ?thesis by simp
    next
      case (Suc k)
      with 1 False eq show ?thesis by simp
    qed
  qed
qed

lemma rows_needed_ceiling:
  assumes n: "0 < n"
  shows "\<lceil>rat_of_nat m / rat_of_int (int n)\<rceil> = int ((m + n - 1) div n)"
proof -
  define k where "k = (m + n - 1) div n"
  have "k * n + (m + n - 1) mod n = m + n - 1"
    by (simp add: k_def)
  moreover have "(m + n - 1) mod n < n"
    using n by simp
  ultimately have up: "m \<le> k * n" and lo: "k * n < m + n"
    using n by linarith+
  have "rat_of_nat m \<le> rat_of_nat (k * n)"
    using up by (simp only: of_nat_le_iff)
  then have 1: "rat_of_nat m / rat_of_nat n \<le> rat_of_nat k"
    using n by (simp add: pos_divide_le_eq)
  have "rat_of_nat (k * n) < rat_of_nat (m + n)"
    using lo by (simp only: of_nat_less_iff)
  then have "(rat_of_nat k - 1) * rat_of_nat n < rat_of_nat m"
    by (simp add: algebra_simps)
  then have 2: "rat_of_nat k - 1 < rat_of_nat m / rat_of_nat n"
    using n by (simp add: pos_less_divide_eq)
  have "\<lceil>rat_of_nat m / rat_of_nat n\<rceil> = int k"
    by (rule ceiling_unique) (use 1 2 in simp_all)
  then show ?thesis by (simp add: k_def)
qed

lemma rows_needed_cover:
  fixes m n :: nat
  assumes "0 < n"
  shows "m \<le> n * ((m + n - 1) div n)"
proof -
  have "(m + n - 1) div n * n + (m + n - 1) mod n = m + n - 1"
    by simp
  moreover have "(m + n - 1) mod n < n"
    using assms by simp
  ultimately have "m \<le> (m + n - 1) div n * n"
    using assms by linarith
  then show ?thesis by (simp add: mult.commute)
qed

lemma rows_needed_mono:
  fixes k m n :: nat
  shows "k \<le> m \<Longrightarrow> (k + n - 1) div n \<le> (m + n - 1) div n"
  by (rule div_le_mono) simp

lemma chunks_single: "0 < n \<Longrightarrow> xs \<noteq> [] \<Longrightarrow> length xs \<le> n \<Longrightarrow> chunks n xs = [xs]"
  by (simp add: chunks_step)

lemma chunks_full_row:
  "0 < n \<Longrightarrow> length xs = n \<Longrightarrow> chunks n (xs @ ys) = xs # chunks n ys"
  by (subst chunks.simps) auto

lemma chunks_nonempty: "0 < n \<Longrightarrow> xs \<noteq> [] \<Longrightarrow> chunks n xs \<noteq> []"
  by (simp add: chunks_step)

text \<open>
  The invariant of the loop: the rows before \<open>rowIndex\<close> are full, the row at
  \<open>rowIndex\<close> holds at most \<open>cardsPerRow\<close> cards, the rows after it are empty, and the
  rows that remain suffice for the cards to come.
\<close>

lemma cardRows_loop_chunks:
  fixes c :: nat
  assumes "0 < c"
  shows "length cur \<le> c \<Longrightarrow> length cur + length ws \<le> c * Suc m \<Longrightarrow>
    cardRows_loop rc (int c) ws (dn @ cur # replicate m []) (int (length dn)) =
      Inr (dn @ chunks c (cur @ map rc ws)
              @ replicate (Suc m - length (chunks c (cur @ map rc ws))) [],
           int (length dn + (length (chunks c (cur @ map rc ws)) - 1)))"
proof (induction ws arbitrary: dn cur m)
  case Nil
  show ?case
  proof (cases "cur = []")
    case True
    then show ?thesis by simp
  next
    case False
    with Nil assms have "chunks c cur = [cur]" by (simp add: chunks_single)
    then show ?thesis by simp
  qed
next
  case (Cons w ws)
  let ?rows = "dn @ cur # replicate m []"
  have ok: "index_ok ?rows (int (length dn))"
    by (simp add: index_ok_def)
  have cur: "?rows ! nat (int (length dn)) = cur"
    by simp
  show ?case
  proof (cases "length cur = c")
    case True
    have "m \<noteq> 0"
    proof
      assume "m = 0"
      with Cons.prems True show False by simp
    qed
    then obtain m' where m: "m = Suc m'" by (cases m) simp_all
    have ok': "index_ok ?rows (int (length dn) + 1)"
      by (simp add: index_ok_def m)
    have nth: "?rows ! nat (int (length dn) + 1) = []"
      by (simp add: m nat_add_distrib nth_append)
    have upd: "?rows[nat (int (length dn) + 1) := [] @ [rc w]] =
        (dn @ [cur]) @ [rc w] # replicate m' []"
      by (simp add: m nat_add_distrib list_update_append)
    have le1: "length [rc w] \<le> c" using assms by simp
    have le2: "length [rc w] + length ws \<le> c * Suc m'"
      using Cons.prems True by (simp add: m)
    have idx: "int (length dn) + 1 = int (length (dn @ [cur]))" by simp
    have K: "chunks c (cur @ map rc (w # ws)) = cur # chunks c ([rc w] @ map rc ws)"
      using assms True by (simp add: chunks_full_row)
    have ne: "chunks c ([rc w] @ map rc ws) \<noteq> []"
      using assms by (simp add: chunks_nonempty)
    have step: "cardRows_loop rc (int c) (w # ws) ?rows (int (length dn)) =
        cardRows_loop rc (int c) ws ((dn @ [cur]) @ [rc w] # replicate m' [])
          (int (length (dn @ [cur])))"
      using ok ok' True cur nth upd
      by (simp only: cardRows_loop.simps Let_def idx [symmetric]) simp
    show ?thesis
      unfolding step Cons.IH [OF le1 le2] K using ne
      by (cases "chunks c ([rc w] @ map rc ws)") (simp_all add: m)
  next
    case False
    have upd: "?rows[nat (int (length dn)) := cur @ [rc w]] =
        dn @ (cur @ [rc w]) # replicate m []"
      by simp
    have le1: "length (cur @ [rc w]) \<le> c" using Cons.prems False by simp
    have le2: "length (cur @ [rc w]) + length ws \<le> c * Suc m"
      using Cons.prems by simp
    have step: "cardRows_loop rc (int c) (w # ws) ?rows (int (length dn)) =
        cardRows_loop rc (int c) ws (dn @ (cur @ [rc w]) # replicate m []) (int (length dn))"
      using ok False cur upd by (simp only: cardRows_loop.simps Let_def) simp
    show ?thesis
      unfolding step Cons.IH [OF le1 le2] by simp
  qed
qed

lemma cardRows_loop_prefix:
  assumes c: "1 \<le> cardsPerRow" and le: "length ws' \<le> length ws" and ne: "ws \<noteq> []"
  shows "cardRows_loop rc cardsPerRow ws'
           (replicate (nat \<lceil>rat_of_nat (length ws) / rat_of_int cardsPerRow\<rceil>) []) 0 =
         Inr (chunks (nat cardsPerRow) (map rc ws') @
                replicate (nat \<lceil>rat_of_nat (length ws) / rat_of_int cardsPerRow\<rceil>
                             - length (chunks (nat cardsPerRow) (map rc ws'))) [],
              int (length (chunks (nat cardsPerRow) (map rc ws')) - 1))"
proof -
  define n where "n = nat cardsPerRow"
  define R where "R = (length ws + n - 1) div n"
  have n: "0 < n" "cardsPerRow = int n"
    using c by (simp_all add: n_def)
  have ceil: "nat \<lceil>rat_of_nat (length ws) / rat_of_int cardsPerRow\<rceil> = R"
    unfolding n(2) rows_needed_ceiling [OF n(1)] R_def by simp
  have "length ws \<le> n * R"
    unfolding R_def by (rule rows_needed_cover [OF n(1)])
  with ne have "R \<noteq> 0" by (cases R) auto
  then obtain m where R: "R = Suc m" by (cases R) simp_all
  have "cardRows_loop rc (int n) ws' (replicate (Suc m) []) 0 =
      Inr (chunks n (map rc ws') @ replicate (Suc m - length (chunks n (map rc ws'))) [],
           int (length (chunks n (map rc ws')) - 1))"
    using cardRows_loop_chunks [OF n(1), of "[]" ws' m rc "[]"] le \<open>length ws \<le> n * R\<close>
    by (simp add: R)
  then show ?thesis
    unfolding ceil using c by (simp add: R n_def)
qed

lemma cardRows_chunks:
  assumes c: "1 \<le> cardsPerRow"
  shows "cardRows rc cardsPerRow ws = Inr (chunks (nat cardsPerRow) (map rc ws))"
proof (cases "ws = []")
  case True
  with c show ?thesis by (simp add: cardRows_def)
next
  case False
  have n: "0 < nat cardsPerRow" "cardsPerRow = int (nat cardsPerRow)"
    using c by simp_all
  have len: "nat \<lceil>rat_of_nat (length ws) / rat_of_int cardsPerRow\<rceil>
      = length (chunks (nat cardsPerRow) (map rc ws))"
    by (subst n(2), subst rows_needed_ceiling [OF n(1)]) (simp add: length_chunks [OF n(1)])
  have nonneg: "\<not> \<lceil>rat_of_nat (length ws) / rat_of_int cardsPerRow\<rceil> < 0"
    by (subst n(2), subst rows_needed_ceiling [OF n(1)]) simp
  have "cardsPerRow \<noteq> 0" using c by simp
  then show ?thesis
    unfolding cardRows_def Let_def
    by (simp only: nonneg if_False cardRows_loop_prefix [OF c le_refl False]) (simp add: len)
qed

text \<open>
  Claim C4. For every number of cards and every \<open>cardsPerRow \<ge> 1\<close>, the layout produces
  exactly \<open>\<lceil>cardCount / cardsPerRow\<rceil>\<close> rows, the numbers of cards of the rows add up to
  the number of cards, every row except possibly the last holds exactly \<open>cardsPerRow\<close>
  cards, and the rows concatenated from top to bottom are the cards in their input
  order; seven cards with three cards per row give rows of 3, 3 and 1 cards.
\<close>

theorem cardRows_layout:
  assumes "1 \<le> cardsPerRow"
  shows "\<exists>rows. cardRows rc cardsPerRow ws = Inr rows
      \<and> int (length rows) = \<lceil>rat_of_nat (length ws) / rat_of_int cardsPerRow\<rceil>
      \<and> sum_list (map length rows) = length ws
      \<and> (\<forall>j. Suc j < length rows \<longrightarrow> int (length (rows ! j)) = cardsPerRow)
      \<and> concat rows = map rc ws
      \<and> (length ws = 7 \<and> cardsPerRow = 3 \<longrightarrow> map length rows = [3, 3, 1])"
proof -
  define n where "n = nat cardsPerRow"
  define rows where "rows = chunks n (map rc ws)"
  have n: "0 < n" "cardsPerRow = int n"
    using assms by (simp_all add: n_def)
  have 1: "cardRows rc cardsPerRow ws = Inr rows"
    unfolding rows_def n_def by (rule cardRows_chunks [OF assms])
  have 2: "int (length rows) = \<lceil>rat_of_nat (length ws) / rat_of_int cardsPerRow\<rceil>"
    unfolding n(2) rows_needed_ceiling [OF n(1)] rows_def by (simp add: length_chunks [OF n(1)])
  have 5: "concat rows = map rc ws"
    unfolding rows_def by (rule concat_chunks [OF n(1)])
  have "sum_list (map length rows) = length (concat rows)"
    by (simp add: length_concat)
  then have 3: "sum_list (map length rows) = length ws"
    by (simp add: 5)
  have 4: "\<forall>j. Suc j < length rows \<longrightarrow> int (length (rows ! j)) = cardsPerRow"
  proof (intro allI impI)
    fix j
    assume "Suc j < length rows"
    then have "length (rows ! j) = n"
      unfolding rows_def by (rule chunks_rows_full [OF n(1)])
    then show "int (length (rows ! j)) = cardsPerRow"
      by (simp add: n(2))
  qed
  have 6: "map length rows = [3, 3, 1]" if "length ws = 7" "cardsPerRow = 3"
  proof -
    define xs where "xs = map rc ws"
    have len: "length xs = 7" by (simp add: xs_def that(1))
    have n3: "n = 3" by (simp add: n_def that(2))
    have ne: "xs \<noteq> []" "drop 3 xs \<noteq> []" "drop 3 (drop 3 xs) \<noteq> []"
      using len by auto
    have "chunks 3 xs = take 3 xs # chunks 3 (drop 3 xs)"
      by (rule chunks_step [OF _ ne(1)]) simp
    also have "chunks 3 (drop 3 xs) = take 3 (drop 3 xs) # chunks 3 (drop 3 (drop 3 xs))"
      by (rule chunks_step [OF _ ne(2)]) simp
    also have "chunks 3 (drop 3 (drop 3 xs)) = [drop 3 (drop 3 xs)]"
      by (rule chunks_single [OF _ ne(3)]) (simp_all add: len)
    finally have "map length (chunks 3 xs) = [3, 3, 1]"
      by (simp add: len)
    then show ?thesis
      by (simp add: rows_def n3 xs_def)
  qed
  have 7: "length ws = 7 \<and> cardsPerRow = 3 \<longrightarrow> map length rows = [3, 3, 1]"
    using 6 by (intro impI) (elim conjE)
  show ?thesis
    by (intro exI [of _ rows] conjI 1 2 3 4 5 7)
qed

theorem cardRows_layout_witness:
  "(1::int) \<le> 3
   \<and> cardRows workflow.Name 3
        (map (\<lambda>n. \<lparr>workflow.Name = n, Runs = [], BillableMs = 0\<rparr>)
           [''a'', ''b'', ''c'', ''d'', ''e'', ''f'', ''g''])
       = Inr [[''a'', ''b'', ''c''], [''d'', ''e'', ''f''], [''g'']]"
proof -
  let ?ws = "map (\<lambda>n. \<lparr>workflow.Name = n, Runs = [], BillableMs = 0\<rparr>)
               [''a'', ''b'', ''c'', ''d'', ''e'', ''f'', ''g'']"
  have h: "(1::int) \<le> 3" by simp
  have c: "\<lceil>(7::rat) / 3\<rceil> = 3"
    by (rule ceiling_unique) simp_all
  have r: "replicate (nat 3) ([] :: string list) = [[], [], []]"
    by (simp add: numeral_3_eq_3)
  have ev: "cardRows workflow.Name 3 ?ws = Inr [[''a'', ''b'', ''c''], [''d'', ''e'', ''f''], [''g'']]"
    by (simp add: cardRows_def c index_ok_def eval_nat_numeral)
  from cardRows_layout [OF h, of workflow.Name ?ws]
  obtain rows where "cardRows workflow.Name 3 ?ws = Inr rows"
    by (elim exE conjE)
  with ev h show ?thesis
    by simp
qed

text \<open>
  Claim C9. For every \<open>cardsPerRow \<ge> 1\<close> and every number of workflows, the walk over
  the workflows never indexes the row slice outside \<open>[0, \<lceil>n / cardsPerRow\<rceil> - 1]\<close>: after any
  number \<open>k\<close> of iterations no index expression has panicked, and the row index lies in
  that range. (Every index expression of the loop is checked in \<open>cardRows_loop\<close>, which
  returns the panic as soon as one is out of range.)
\<close>

theorem cardRows_loop_in_bounds:
  assumes "1 \<le> cardsPerRow"
  shows "\<exists>rows rowIndex.
      cardRows_loop rc cardsPerRow (take k ws)
        (replicate (nat \<lceil>rat_of_nat (length ws) / rat_of_int cardsPerRow\<rceil>) []) 0
        = Inr (rows, rowIndex)
      \<and> 0 \<le> rowIndex
      \<and> (ws \<noteq> [] \<longrightarrow> rowIndex \<le> \<lceil>rat_of_nat (length ws) / rat_of_int cardsPerRow\<rceil> - 1)"
proof (cases "ws = []")
  case True
  then show ?thesis by simp
next
  case False
  define n where "n = nat cardsPerRow"
  have n: "0 < n" "cardsPerRow = int n"
    using assms by (simp_all add: n_def)
  have le: "length (take k ws) \<le> length ws" by simp
  have "length (chunks n (map rc (take k ws))) \<le> (length ws + n - 1) div n"
    unfolding length_chunks [OF n(1)] by (rule rows_needed_mono) simp
  moreover have "0 < (length ws + n - 1) div n"
    using rows_needed_cover [OF n(1), of "length ws"] False by (cases "(length ws + n - 1) div n") auto
  ultimately have "int (length (chunks n (map rc (take k ws))) - 1)
      \<le> \<lceil>rat_of_nat (length ws) / rat_of_int cardsPerRow\<rceil> - 1"
    unfolding n(2) rows_needed_ceiling [OF n(1)] by simp
  then show ?thesis
    using cardRows_loop_prefix [OF assms le False, of rc] by (simp add: n_def)
qed

theorem cardRows_loop_in_bounds_witness:
  "(1::int) \<le> 2
   \<and> cardRows_loop workflow.Name 2
        (take 3 (map (\<lambda>n. \<lparr>workflow.Name = n, Runs = [], BillableMs = 0\<rparr>) [''a'', ''b'', ''c'']))
        (replicate (nat \<lceil>rat_of_nat (length [''a'', ''b'', ''c'']) / rat_of_int 2\<rceil>) []) 0
       = Inr ([[''a'', ''b''], [''c'']], 1)"
proof -
  let ?ws = "map (\<lambda>n. \<lparr>workflow.Name = n, Runs = [], BillableMs = 0\<rparr>) [''a'', ''b'', ''c'']"
  have h: "(1::int) \<le> 2" by simp
  have c: "\<lceil>(3::rat) / 2\<rceil> = 2"
    by (rule ceiling_unique) simp_all
  have r: "replicate (nat 2) ([] :: string list) = [[], []]"
    by (simp add: numeral_2_eq_2)
  have ev: "cardRows_loop workflow.Name 2 (take 3 ?ws)
       (replicate (nat \<lceil>rat_of_nat (length ?ws) / rat_of_int 2\<rceil>) []) 0
      = Inr ([[''a'', ''b''], [''c'']], 1)"
    by (simp add: c index_ok_def eval_nat_numeral)
  from cardRows_loop_in_bounds [OF h, of workflow.Name 3 ?ws]
  obtain rows rowIndex where
    "cardRows_loop workflow.Name 2 (take 3 ?ws)
       (replicate (nat \<lceil>rat_of_nat (length ?ws) / rat_of_int 2\<rceil>) []) 0 = Inr (rows, rowIndex)"
    by (elim exE conjE)
  with ev h show ?thesis
    by simp
qed

section \<open>The run filter\<close>

text \<open>
  The test \<open>last - finishedAgo > 0\<close> of the source subtracts two durations, which wraps
  around: it is the condition \<open>in_window_wrapped\<close>. Each step of the loop takes one
  reading of the clock for a completed run and none for another run.
\<close>

lemma wrap64_signed: "wrap64 x = signed_take_bit 63 x"
  by (simp add: wrap64_def signed_take_bit_eq_take_bit_shift take_bit_eq_mod)

lemma sub_positive_wrapped:
  fixes a b :: Duration
  shows "0 <s a - b \<longleftrightarrow> 0 < wrap64 (sint a - sint b)"
  by (simp add: word_sless_alt sint_word_ariths wrap64_signed)

lemma filterRuns_step:
  "filterRuns last' clock (r # rs) runs reads =
     (if runPayload.Status r = ''completed'' then
        (if in_window_wrapped last' (clock reads) r
         then filterRuns last' clock rs (runs @ [run_of r]) (reads + 1)
         else filterRuns last' clock rs runs (reads + 1))
      else filterRuns last' clock rs runs reads)"
  by (simp add: Let_def in_window_wrapped_def run_of_def sub_positive_wrapped)

lemma filterRuns_examined:
  "fst (filterRuns last' clock rs runs reads) =
     runs @ map (\<lambda>(now, r). run_of r)
              (filter (\<lambda>(now, r). in_window_wrapped last' now r) (examined clock reads rs))"
proof (induction rs arbitrary: runs reads)
  case Nil
  then show ?case by simp
next
  case (Cons r rs)
  show ?case
    unfolding filterRuns_step
    by (simp add: Cons.IH) (simp add: in_window_wrapped_def)
qed

lemma filterRuns_reads:
  "snd (filterRuns last' clock rs runs reads) = reads + readings_taken rs"
proof (induction rs arbitrary: runs reads)
  case Nil
  then show ?case by (simp add: readings_taken_def)
next
  case (Cons r rs)
  show ?case
    unfolding filterRuns_step
    by (simp add: Cons.IH) (simp add: readings_taken_def)
qed

lemma examined_append:
  "examined clock reads (xs @ ys) =
     examined clock reads xs @ examined clock (reads + readings_taken xs) ys"
proof (induction xs arbitrary: reads)
  case Nil
  then show ?case by (simp add: readings_taken_def)
next
  case (Cons x xs)
  show ?case
    by (simp add: Cons.IH) (simp add: readings_taken_def)
qed

lemma map_snd_examined: "map snd (examined clock reads rs) = rs"
  by (induction rs arbitrary: reads) simp_all

lemma length_examined: "length (examined clock reads rs) = length rs"
  by (induction rs arbitrary: reads) simp_all

lemma sub_positive_iff:
  fixes a b :: Duration
  assumes "fits_Duration (sint a - sint b)"
  shows "0 <s a - b \<longleftrightarrow> b <s a"
proof -
  have "sint (a - b) = signed_take_bit 63 (sint a - sint b)"
    by (simp add: sint_word_ariths)
  also have "\<dots> = sint a - sint b"
    using assms
    by (intro signed_take_bit_int_eq_self)
      (simp_all add: fits_Duration_def minDuration_def maxDuration_def)
  finally show ?thesis
    by (simp add: word_sless_alt)
qed

lemma in_window_wrapped_iff:
  assumes "fits_Duration (sint last' - sint (time_Since now (UpdatedAt r)))"
  shows "in_window_wrapped last' now r = in_window last' now r"
  using sub_positive_iff [OF assms]
  by (simp add: in_window_wrapped_def in_window_def sub_positive_wrapped)

lemma length_filterRuns:
  "length (fst (filterRuns last' clock rs [] reads)) \<le> length rs"
proof -
  have "length (fst (filterRuns last' clock rs [] reads)) \<le> length (examined clock reads rs)"
    unfolding filterRuns_examined by simp
  then show ?thesis
    by (simp only: length_examined)
qed

lemma time_Since_30h: "now - t = 30 * 3600000000000 \<Longrightarrow> time_Since now t = 30 * Hour"
  by (simp add: time_Since_def time_Sub_def minDuration_def maxDuration_def Hour_def)

lemma stale_30h:
  assumes "now - UpdatedAt r = 30 * 3600000000000"
  shows "\<not> in_window_wrapped (24 * Hour) now r"
  by (simp add: in_window_wrapped_def time_Since_30h [OF assms])
    (simp add: Hour_def wrap64_def)

lemma filterRuns_skip_stale:
  assumes "runPayload.Status r = ''completed''"
    and "clock (reads + readings_taken rs1) - UpdatedAt r = 30 * 3600000000000"
  shows "fst (filterRuns (24 * Hour) clock (rs1 @ r # rs2) [] reads)
           = fst (filterRuns (24 * Hour) clock rs1 [] reads)
             @ fst (filterRuns (24 * Hour) clock rs2 [] (reads + readings_taken rs1 + 1))"
  using assms(1) stale_30h [OF assms(2)]
  by (simp add: filterRuns_examined examined_append)

lemma fits_Duration_past_run:
  fixes last' :: Duration
  assumes "0 \<le> sint last'" "t \<le> now"
  shows "fits_Duration (sint last' - sint (time_Since now t))"
proof -
  have l: "sint last' < 2 ^ 63"
    using sint_lt [of last'] by simp
  have s: "sint (word_of_int k :: Duration) = k" if "- (2 ^ 63) \<le> k" "k < 2 ^ 63" for k
    using that by (simp add: sint_sbintrunc' signed_take_bit_int_eq_self)
  have "0 \<le> sint (time_Since now t) \<and> sint (time_Since now t) < 2 ^ 63"
  proof (cases "maxDuration < now - t")
    case True
    then have "time_Since now t = word_of_int maxDuration"
      using assms(2) by (simp add: time_Since_def time_Sub_def minDuration_def)
    then show ?thesis
      by (simp add: maxDuration_def)
  next
    case False
    then have "time_Since now t = word_of_int (now - t)"
      using assms(2) by (simp add: time_Since_def time_Sub_def minDuration_def)
    moreover have "- (2 ^ 63) \<le> now - t" "now - t < 2 ^ 63"
      using False assms(2) by (simp_all add: maxDuration_def)
    ultimately show ?thesis
      using assms(2) by (simp only: s) simp
  qed
  with assms(1) l show ?thesis
    by (simp add: fits_Duration_def minDuration_def maxDuration_def)
qed

text \<open>
  Claim C3, as amended. For every sequence of run payloads, every lookback window and
  every sequence of clock readings, the output of the run filter is the order-preserving
  subsequence of exactly the runs with status \<open>completed\<close> and
  \<open>window - (now - finishedAt) > 0\<close>, where \<open>now\<close> is the reading of the clock taken when
  the run is examined and the subtraction from the window wraps around in the signed
  64-bit range of nanoseconds. For each run for which that subtraction does not leave
  the range, whatever the other runs are, the condition is \<open>(now - finishedAt) < window\<close>;
  this is so for every window that is not negative and every run that did not finish
  after its clock reading. In particular the output is never longer than the input, and
  a completed run that finished 30 hours before its clock reading is excluded under a
  window of 24 hours, wherever it stands in the input: the output is what the filter
  yields for the runs before it followed by what it yields for the runs after it.
\<close>

theorem filterRuns_window:
  "fst (filterRuns last' clock rs [] reads)
     = map (\<lambda>(now, r). run_of r)
         (filter (\<lambda>(now, r). in_window_wrapped last' now r) (examined clock reads rs))
   \<and> map snd (examined clock reads rs) = rs
   \<and> (fits_Duration (sint last' - sint (time_Since now (UpdatedAt r)))
        \<longrightarrow> in_window_wrapped last' now r = in_window last' now r)
   \<and> (0 \<le> sint last' \<and> UpdatedAt r \<le> now
        \<longrightarrow> fits_Duration (sint last' - sint (time_Since now (UpdatedAt r))))
   \<and> length (fst (filterRuns last' clock rs [] reads)) \<le> length rs
   \<and> (runPayload.Status r = ''completed'' \<and> now - UpdatedAt r = 30 * 3600000000000
        \<longrightarrow> \<not> in_window_wrapped (24 * Hour) now r)
   \<and> (runPayload.Status r = ''completed''
       \<and> clock (reads + readings_taken rs1) - UpdatedAt r = 30 * 3600000000000
        \<longrightarrow> fst (filterRuns (24 * Hour) clock (rs1 @ r # rs2) [] reads)
            = fst (filterRuns (24 * Hour) clock rs1 [] reads)
              @ fst (filterRuns (24 * Hour) clock rs2 [] (reads + readings_taken rs1 + 1)))"
proof (intro conjI impI)
  show "fst (filterRuns last' clock rs [] reads)
     = map (\<lambda>(now, r). run_of r)
         (filter (\<lambda>(now, r). in_window_wrapped last' now r) (examined clock reads rs))"
    using filterRuns_examined [of last' clock rs "[]" reads] by simp
next
  show "map snd (examined clock reads rs) = rs"
    by (rule map_snd_examined)
next
  assume "fits_Duration (sint last' - sint (time_Since now (UpdatedAt r)))"
  then show "in_window_wrapped last' now r = in_window last' now r"
    by (rule in_window_wrapped_iff)
next
  assume "0 \<le> sint last' \<and> UpdatedAt r \<le> now"
  then show "fits_Duration (sint last' - sint (time_Since now (UpdatedAt r)))"
    by (simp add: fits_Duration_past_run)
next
  show "length (fst (filterRuns last' clock rs [] reads)) \<le> length rs"
    by (rule length_filterRuns)
next
  assume "runPayload.Status r = ''completed'' \<and> now - UpdatedAt r = 30 * 3600000000000"
  then show "\<not> in_window_wrapped (24 * Hour) now r"
    by (simp add: stale_30h)
next
  assume "runPayload.Status r = ''completed''
       \<and> clock (reads + readings_taken rs1) - UpdatedAt r = 30 * 3600000000000"
  then show "fst (filterRuns (24 * Hour) clock (rs1 @ r # rs2) [] reads)
            = fst (filterRuns (24 * Hour) clock rs1 [] reads)
              @ fst (filterRuns (24 * Hour) clock rs2 [] (reads + readings_taken rs1 + 1))"
    by (simp add: filterRuns_skip_stale)
qed

text \<open>
  Five sample runs under a window of 24 hours. The first finished an hour ago and is
  kept; the second finished 30 hours before its reading and is dropped; the third is not
  completed and is dropped without a reading of the clock; the last two have the same
  \<open>updated_at\<close>, half a millisecond less than 24 hours before the reading taken for the
  first of them, which is kept, and half a millisecond more than 24 hours before the
  reading taken for the second, which is dropped.
\<close>

lemma sample_examined:
  "examined sample_clock 0
     [sample_run 11 ''run/11'', stale_run, future_run\<lparr>runPayload.Status := ''queued''\<rparr>,
      edge_run, edge_run]
   = [(sample_clock 0, sample_run 11 ''run/11''), (sample_clock 1, stale_run),
      (sample_clock 2, future_run\<lparr>runPayload.Status := ''queued''\<rparr>),
      (sample_clock 2, edge_run), (sample_clock 3, edge_run)]"
  by (simp add: sample_run_def stale_run_def future_run_def edge_run_def eval_nat_numeral)

lemma sample_in_window:
  "in_window_wrapped (24 * Hour) (sample_clock 0) (sample_run 11 ''run/11'')"
  "\<not> in_window_wrapped (24 * Hour) (sample_clock 1) stale_run"
  "\<not> in_window_wrapped (24 * Hour) (sample_clock 2) (future_run\<lparr>runPayload.Status := ''queued''\<rparr>)"
  "in_window_wrapped (24 * Hour) (sample_clock 2) edge_run"
  "\<not> in_window_wrapped (24 * Hour) (sample_clock 3) edge_run"
  by (simp_all add: in_window_wrapped_def sample_run_def stale_run_def future_run_def edge_run_def
      sample_clock_def sample_now_def Hour_def time_Since_def time_Sub_def minDuration_def
      maxDuration_def wrap64_def)

theorem filterRuns_window_witness:
  "fits_Duration (sint (24 * Hour) - sint (time_Since (sample_clock 1) (UpdatedAt stale_run)))
   \<and> 0 \<le> sint (24 * Hour) \<and> UpdatedAt stale_run \<le> sample_clock 1
   \<and> runPayload.Status stale_run = ''completed''
   \<and> sample_clock 1 - UpdatedAt stale_run = 30 * 3600000000000
   \<and> sample_clock (0 + readings_taken [sample_run 11 ''run/11''])  - UpdatedAt stale_run
       = 30 * 3600000000000
   \<and> \<not> in_window (24 * Hour) (sample_clock 1) stale_run
   \<and> fst (filterRuns (24 * Hour) sample_clock
        [sample_run 11 ''run/11'', stale_run, future_run\<lparr>runPayload.Status := ''queued''\<rparr>,
         edge_run, edge_run] [] 0)
       = [run_of (sample_run 11 ''run/11''), run_of edge_run]
   \<and> fst (filterRuns (24 * Hour) sample_clock
        ([sample_run 11 ''run/11''] @ stale_run
           # [future_run\<lparr>runPayload.Status := ''queued''\<rparr>, edge_run, edge_run]) [] 0)
       = fst (filterRuns (24 * Hour) sample_clock [sample_run 11 ''run/11''] [] 0)
         @ fst (filterRuns (24 * Hour) sample_clock
             [future_run\<lparr>runPayload.Status := ''queued''\<rparr>, edge_run, edge_run] []
             (0 + readings_taken [sample_run 11 ''run/11''] + 1))"
proof -
  let ?q = "future_run\<lparr>runPayload.Status := ''queued''\<rparr>"
  let ?rs = "[sample_run 11 ''run/11'', stale_run, ?q, edge_run, edge_run]"
  note T = filterRuns_window [of "24 * Hour" sample_clock ?rs 0 "sample_clock 1" stale_run
      "[sample_run 11 ''run/11'']" "[?q, edge_run, edge_run]"]
  have h1: "0 \<le> sint (24 * Hour) \<and> UpdatedAt stale_run \<le> sample_clock 1"
    by (simp add: Hour_def stale_run_def sample_clock_def)
  have h2: "runPayload.Status stale_run = ''completed''
      \<and> sample_clock 1 - UpdatedAt stale_run = 30 * 3600000000000"
    by (simp add: stale_run_def sample_clock_def)
  have h3: "runPayload.Status stale_run = ''completed''
      \<and> sample_clock (0 + readings_taken [sample_run 11 ''run/11'']) - UpdatedAt stale_run
          = 30 * 3600000000000"
    by (simp add: stale_run_def sample_clock_def readings_taken_def sample_run_def)
  from T h1 have fits:
    "fits_Duration (sint (24 * Hour) - sint (time_Since (sample_clock 1) (UpdatedAt stale_run)))"
    by (simp only: simp_thms)
  from T fits have "in_window_wrapped (24 * Hour) (sample_clock 1) stale_run
      = in_window (24 * Hour) (sample_clock 1) stale_run"
    by (simp only: simp_thms)
  moreover from T h2 have "\<not> in_window_wrapped (24 * Hour) (sample_clock 1) stale_run"
    by (simp only: simp_thms)
  ultimately have out: "\<not> in_window (24 * Hour) (sample_clock 1) stale_run"
    by simp
  from T have "fst (filterRuns (24 * Hour) sample_clock ?rs [] 0)
     = map (\<lambda>(now, r). run_of r)
         (filter (\<lambda>(now, r). in_window_wrapped (24 * Hour) now r) (examined sample_clock 0 ?rs))"
    by (rule conjunct1)
  moreover have "map (\<lambda>(now, r). run_of r)
         (filter (\<lambda>(now, r). in_window_wrapped (24 * Hour) now r)
            [(sample_clock 0, sample_run 11 ''run/11''), (sample_clock 1, stale_run),
             (sample_clock 2, ?q), (sample_clock 2, edge_run), (sample_clock 3, edge_run)])
      = [run_of (sample_run 11 ''run/11''), run_of edge_run]"
    by (simp add: sample_in_window del: One_nat_def)
  ultimately have res: "fst (filterRuns (24 * Hour) sample_clock ?rs [] 0)
      = [run_of (sample_run 11 ''run/11''), run_of edge_run]"
    by (simp only: sample_examined)
  from T h3 have skip: "fst (filterRuns (24 * Hour) sample_clock
        ([sample_run 11 ''run/11''] @ stale_run # [?q, edge_run, edge_run]) [] 0)
       = fst (filterRuns (24 * Hour) sample_clock [sample_run 11 ''run/11''] [] 0)
         @ fst (filterRuns (24 * Hour) sample_clock [?q, edge_run, edge_run] []
             (0 + readings_taken [sample_run 11 ''run/11''] + 1))"
    by (simp only: simp_thms)
  from fits h1 h2 h3 out res skip show ?thesis
    by (intro conjI) (simp_all only: simp_thms)
qed

text \<open>
  The claim as worded fails for a completed run whose finish time lies more than 292
  years after the clock reading: \<open>time.Since\<close> is the minimum duration, which is less
  than a window of 24 hours, but \<open>last - finishedAgo\<close> wraps around to a negative number
  and the run is dropped.
\<close>

theorem filterRuns_window_overflow:
  "examined sample_clock 0 [future_run] = [(sample_clock 0, future_run)]
   \<and> in_window (24 * Hour) (sample_clock 0) future_run
   \<and> fst (filterRuns (24 * Hour) sample_clock [future_run] [] 0) = []"
  by (simp add: future_run_def sample_clock_def sample_now_def Let_def time_Since_def time_Sub_def
      minDuration_def maxDuration_def Hour_def word_sless_alt in_window_def)

section \<open>Billable time\<close>

lemma workflows_loop_public:
  assumes pub: "\<not> Private repoData"
  shows "list_all (\<lambda>w. BillableMs w = 0) out \<Longrightarrow>
    list_all (\<lambda>a. \<not> is_billing_call a) calls \<Longrightarrow>
    list_all (\<lambda>a. \<not> is_billing_call a)
      (fst (workflows_loop repoData last' wld p 0 out calls reads)) \<and>
    (case snd (workflows_loop repoData last' wld p 0 out calls reads) of
       Inl e \<Rightarrow> True
     | Inr ws \<Rightarrow> list_all (\<lambda>w. BillableMs w = 0) ws)"
proof (induction p arbitrary: out calls reads)
  case Nil
  then show ?case by simp
next
  case (Cons w p)
  show ?case
  proof (cases "strings_HasPrefix (State w) ''disabled''")
    case True
    with Cons show ?thesis by simp
  next
    case False
    let ?calls = "calls @ [gh_args (workflowsPayload.URL w @ ''/runs'') ''.workflow_runs'']"
    have calls: "list_all (\<lambda>a. \<not> is_billing_call a) ?calls"
      using Cons.prems(2) by (simp add: is_billing_call_def gh_args_def)
    show ?thesis
    proof (cases "runs_api wld (workflowsPayload.URL w @ ''/runs'')")
      case (GhFails e)
      with False calls show ?thesis by simp
    next
      case (BadJson e)
      with False calls show ?thesis by simp
    next
      case (Fetched rs)
      obtain runs reads' where f: "filterRuns last' (time_Now wld) rs [] reads = (runs, reads')"
        by (cases "filterRuns last' (time_Now wld) rs [] reads")
      let ?out = "out @ [\<lparr>workflow.Name = workflowsPayload.Name w,
                          Runs = runs, BillableMs = 0\<rparr>]"
      have out: "list_all (\<lambda>w. BillableMs w = 0) ?out"
        using Cons.prems(1) by simp
      have "workflows_loop repoData last' wld (w # p) 0 out calls reads =
            workflows_loop repoData last' wld p 0 ?out ?calls reads'"
        using False Fetched pub f by (simp add: Let_def)
      then show ?thesis
        using Cons.IH [OF out calls, of reads'] by simp
    qed
  qed
qed

text \<open>
  Claim C6. For a repository that is not private, every workflow that \<open>getWorkflows\<close>
  returns has \<open>BillableMs = 0\<close>, whatever its runs are, and no call of \<open>gh\<close> that
  \<open>getWorkflows\<close> makes requests the timing of a run, whether it returns workflows or an
  error.
\<close>

theorem getWorkflows_public:
  assumes "\<not> Private repoData"
  shows "(\<forall>a \<in> set (fst (getWorkflows repoData last' wld)). \<not> is_billing_call a) \<and>
         (\<forall>ws. snd (getWorkflows repoData last' wld) = Inr ws
            \<longrightarrow> (\<forall>w \<in> set ws. BillableMs w = 0))"
proof (cases "workflows_api wld (''repos/'' @ repositoryData.Name repoData @ ''/actions/workflows'')")
  case (GhFails e)
  then show ?thesis by (simp add: getWorkflows_def is_billing_call_def gh_args_def)
next
  case (BadJson e)
  then show ?thesis by (simp add: getWorkflows_def is_billing_call_def gh_args_def)
next
  case (Fetched p)
  let ?calls =
    "[gh_args (''repos/'' @ repositoryData.Name repoData @ ''/actions/workflows'') ''.workflows'']"
  have eq: "getWorkflows repoData last' wld = workflows_loop repoData last' wld p 0 [] ?calls 0"
    using Fetched by (simp add: getWorkflows_def)
  have "list_all (\<lambda>w. BillableMs w = 0) ([] :: workflow list)" by simp
  moreover have "list_all (\<lambda>a. \<not> is_billing_call a) ?calls"
    by (simp add: is_billing_call_def gh_args_def)
  ultimately show ?thesis
    unfolding eq using workflows_loop_public [OF assms, of "[]" ?calls last' wld p 0]
    by (auto simp: list_all_iff split: sum.splits)
qed

lemma sample_public:
  "getWorkflows (sample_repo False) (24 * Hour) sample_world =
     ([gh_args ''repos/octo/site/actions/workflows'' ''.workflows'',
       gh_args ''wf/1/runs'' ''.workflow_runs'',
       gh_args ''wf/2/runs'' ''.workflow_runs'',
       gh_args ''wf/3/runs'' ''.workflow_runs''],
      Inr [sample_build\<lparr>BillableMs := 0\<rparr>, sample_docs\<lparr>BillableMs := 0\<rparr>,
           sample_test\<lparr>BillableMs := 0\<rparr>])"
  by (simp add: getWorkflows_def sample_repo_def sample_world_def sample_run_def sample_now_def
      sample_clock_def
      strings_HasPrefix_def Let_def time_Since_def time_Sub_def minDuration_def maxDuration_def
      Hour_def word_sless_alt sample_build_def sample_docs_def sample_test_def
      sample_finished_run_def)

theorem getWorkflows_public_witness:
  "\<not> Private (sample_repo False)
   \<and> map BillableMs [sample_build\<lparr>BillableMs := 0\<rparr>, sample_docs\<lparr>BillableMs := 0\<rparr>,
                      sample_test\<lparr>BillableMs := 0\<rparr>] = [0, 0, 0]
   \<and> snd (getWorkflows (sample_repo False) (24 * Hour) sample_world)
       = Inr [sample_build\<lparr>BillableMs := 0\<rparr>, sample_docs\<lparr>BillableMs := 0\<rparr>,
              sample_test\<lparr>BillableMs := 0\<rparr>]
   \<and> \<not> list_ex is_billing_call (fst (getWorkflows (sample_repo False) (24 * Hour) sample_world))"
proof -
  have h: "\<not> Private (sample_repo False)"
    by (simp add: sample_repo_def)
  from getWorkflows_public [OF h, of "24 * Hour" sample_world]
  have "\<not> list_ex is_billing_call (fst (getWorkflows (sample_repo False) (24 * Hour) sample_world))"
    and "\<forall>w \<in> set [sample_build\<lparr>BillableMs := 0\<rparr>, sample_docs\<lparr>BillableMs := 0\<rparr>,
                     sample_test\<lparr>BillableMs := 0\<rparr>]. BillableMs w = 0"
    by (simp_all add: sample_public list_ex_iff)
  with h show ?thesis
    by (simp add: sample_public)
qed

lemma sample_private:
  "getWorkflows (sample_repo True) (24 * Hour) sample_world =
     ([gh_args ''repos/octo/site/actions/workflows'' ''.workflows'',
       gh_args ''wf/1/runs'' ''.workflow_runs'',
       gh_args ''run/11/timing'' ''.billable'',
       gh_args ''wf/2/runs'' ''.workflow_runs'',
       gh_args ''wf/3/runs'' ''.workflow_runs'',
       gh_args ''run/31/timing'' ''.billable''],
      Inr [sample_build, sample_docs, sample_test])"
  by (simp add: getWorkflows_def sample_repo_def sample_world_def sample_run_def sample_now_def
      sample_clock_def
      strings_HasPrefix_def Let_def time_Since_def time_Sub_def minDuration_def maxDuration_def
      Hour_def word_sless_alt wrap64_def sample_build_def sample_docs_def sample_test_def
      sample_finished_run_def)

text \<open>
  Claim C1 fails on the code. In the private sample repository the runs of the three
  workflows are billed 1000 ms, nothing (there are none) and 2000 ms, but \<open>getWorkflows\<close>
  returns the workflows with \<open>BillableMs\<close> 1000, 1000 and 3000: \<open>totalMs\<close> is declared
  before the loop over the workflows and never set back to zero, so each workflow gets
  the total of all workflows up to it. The total that \<open>_main\<close> prints for them is then
  5000 ms, for 3000 ms billed.
\<close>

theorem getWorkflows_private_accumulates:
  "snd (getWorkflows (sample_repo True) (24 * Hour) sample_world)
     = Inr [sample_build, sample_docs, sample_test]
   \<and> map BillableMs [sample_build, sample_docs, sample_test] = [1000, 1000, 3000]
   \<and> map (billable_due sample_world) (map Runs [sample_build, sample_docs, sample_test])
       = [1000, 0, 2000]
   \<and> totalBillableMs_loop [sample_build, sample_docs, sample_test] 0 = 5000"
  by (simp add: sample_private)
    (simp add: sample_build_def sample_docs_def sample_test_def sample_finished_run_def
      sample_world_def wrap64_def)

lemma empty_runs_summary:
  "Runs w = [] \<Longrightarrow> RenderHealth w = [] \<and> AverageElapsed w = 0"
  by (simp add: RenderHealth_def AverageElapsed_def ParseDuration_seconds_def defaultMaxRuns_def)

text \<open>
  Claim C7 fails on the code in its last part. A workflow whose filtered run list is
  empty has the empty health sequence and the average elapsed duration zero, but in a
  private repository its \<open>BillableMs\<close> is the total carried over from the workflows
  before it: the workflow \<open>docs\<close> of the sample repository has no runs and is returned
  with \<open>BillableMs = 1000\<close>.
\<close>

theorem getWorkflows_empty_runs_billable:
  "snd (getWorkflows (sample_repo True) (24 * Hour) sample_world)
     = Inr [sample_build, sample_docs, sample_test]
   \<and> Runs sample_docs = []
   \<and> RenderHealth sample_docs = []
   \<and> AverageElapsed sample_docs = 0
   \<and> BillableMs sample_docs = 1000"
proof -
  have r: "Runs sample_docs = []"
    by (simp add: sample_docs_def)
  show ?thesis
    using empty_runs_summary [OF r] by (simp add: sample_private) (simp add: sample_docs_def)
qed

section \<open>Rounding to float64\<close>

text \<open>
  Facts about the rounding \<open>float64\<close>: it is odd, it is within half a unit in the last
  place of its argument, it keeps integers below \<open>2\<^sup>5\<^sup>3\<close>, and it does not round a
  number below an integer that the number exceeds.
\<close>

lemma round_even_cases:
  "round_even x = \<lfloor>x\<rfloor> \<or> round_even x = \<lfloor>x\<rfloor> + 1"
  by (simp add: round_even_def Let_def)

lemma round_even_error: "\<bar>rat_of_int (round_even x) - x\<bar> \<le> 1 / 2"
proof -
  define d where "d = x - of_int \<lfloor>x\<rfloor>"
  have d: "0 \<le> d" "d < 1"
    unfolding d_def by linarith+
  have x: "x = of_int \<lfloor>x\<rfloor> + d"
    by (simp add: d_def)
  consider "d < 1 / 2" | "1 / 2 < d" | "d = 1 / 2" by linarith
  then show ?thesis
  proof cases
    case 1
    then have "round_even x = \<lfloor>x\<rfloor>"
      by (simp add: round_even_def Let_def d_def)
    then show ?thesis using 1 d by (simp add: d_def [symmetric] abs_if) linarith
  next
    case 2
    then have "round_even x = \<lfloor>x\<rfloor> + 1"
      by (simp add: round_even_def Let_def d_def)
    then have "rat_of_int (round_even x) - x = 1 - d"
      by (simp add: d_def)
    then show ?thesis using 2 d by (simp add: abs_if)
  next
    case 3
    have "rat_of_int (round_even x) - x = - d \<or> rat_of_int (round_even x) - x = 1 - d"
      using round_even_cases [of x] by (auto simp: d_def)
    then show ?thesis using 3 by (auto simp: abs_if)
  qed
qed

lemma round_even_of_int [simp]: "round_even (of_int m) = m"
  by (simp add: round_even_def)

lemma round_even_ge: "of_int m \<le> x \<Longrightarrow> m \<le> round_even x"
proof -
  assume "of_int m \<le> x"
  then have "m \<le> \<lfloor>x\<rfloor>" by (simp add: le_floor_iff)
  then show ?thesis
    using round_even_cases [of x] by auto
qed

lemma floor_lt_nonint: "x \<noteq> of_int \<lfloor>x\<rfloor> \<Longrightarrow> rat_of_int \<lfloor>x\<rfloor> < x"
proof -
  assume "x \<noteq> of_int \<lfloor>x\<rfloor>"
  then have "rat_of_int \<lfloor>x\<rfloor> \<noteq> x" by (rule not_sym)
  then show ?thesis
    using of_int_floor_le by (rule order.not_eq_order_implies_strict)
qed

lemma round_even_le: "x \<le> of_int m \<Longrightarrow> round_even x \<le> m"
proof (cases "x = of_int \<lfloor>x\<rfloor>")
  case True
  assume "x \<le> of_int m"
  then have "\<lfloor>x\<rfloor> \<le> m" by (simp add: floor_le_iff)
  moreover have "round_even x = \<lfloor>x\<rfloor>"
    by (subst True) (simp only: round_even_of_int)
  ultimately show ?thesis by simp
next
  case False
  assume "x \<le> of_int m"
  moreover have "of_int \<lfloor>x\<rfloor> < x"
    using False by (rule floor_lt_nonint)
  ultimately have "of_int \<lfloor>x\<rfloor> < (of_int m :: rat)" by simp
  then have "\<lfloor>x\<rfloor> < m" by (simp only: of_int_less_iff)
  then show ?thesis
    using round_even_cases [of x] by auto
qed

lemma round_even_minus: "round_even (- x) = - round_even x"
proof (cases "x = of_int \<lfloor>x\<rfloor>")
  case True
  then have "- x = of_int (- \<lfloor>x\<rfloor>)" by simp
  then have "round_even (- x) = - \<lfloor>x\<rfloor>" by (simp only: round_even_of_int)
  moreover have "round_even x = \<lfloor>x\<rfloor>"
    by (subst True) (simp only: round_even_of_int)
  ultimately show ?thesis by simp
next
  case False
  have lt: "of_int \<lfloor>x\<rfloor> < x" "x < of_int \<lfloor>x\<rfloor> + 1"
    using False by (rule floor_lt_nonint, linarith)
  have fl: "\<lfloor>- x\<rfloor> = - \<lfloor>x\<rfloor> - 1"
    by (rule floor_unique) (use lt in simp_all)
  define d where "d = x - of_int \<lfloor>x\<rfloor>"
  have d': "- x - of_int (- \<lfloor>x\<rfloor> - 1) = 1 - d"
    by (simp add: d_def)
  consider "d < 1 / 2" | "1 / 2 < d" | "d = 1 / 2" by linarith
  then show ?thesis
  proof cases
    case 1
    then show ?thesis
      unfolding round_even_def Let_def fl d' d_def [symmetric] by simp
  next
    case 2
    then show ?thesis
      unfolding round_even_def Let_def fl d' d_def [symmetric] by simp
  next
    case 3
    then show ?thesis
      unfolding round_even_def Let_def fl d' d_def [symmetric] by simp
  qed
qed

lemma ilog2_bounds:
  assumes "0 < x"
  shows "2 powi (ilog2 x) \<le> x \<and> x < 2 powi (ilog2 x + 1)"
proof (cases "1 \<le> x")
  case True
  define n where "n = \<lfloor>x\<rfloor>"
  define b where "b = bitlen n"
  have n: "0 < n" using True by (simp add: n_def)
  have b: "2 ^ nat (b - 1) \<le> n" "n < 2 ^ nat b"
    using bitlen_bounds [OF n] by (simp_all add: b_def)
  have b1: "1 \<le> b"
  proof -
    have "b \<noteq> 0" using n by (simp add: b_def bitlen_eq_zero_iff)
    moreover have "0 \<le> b" by (simp add: b_def bitlen_nonneg)
    ultimately show ?thesis by linarith
  qed
  have e: "ilog2 x = b - 1"
    using True by (simp add: ilog2_def b_def n_def)
  have "rat_of_int (2 ^ nat (b - 1)) \<le> rat_of_int n"
    using b(1) by (simp only: of_int_le_iff)
  also have "rat_of_int n \<le> x"
    by (simp add: n_def)
  finally have lo: "2 powi (b - 1) \<le> x"
    using b1 by (simp add: power_int_nonneg_exp)
  have "x < rat_of_int n + 1"
    unfolding n_def by linarith
  also have "rat_of_int n + 1 \<le> rat_of_int (2 ^ nat b)"
  proof -
    have "n + 1 \<le> 2 ^ nat b" using b(2) by simp
    then have "rat_of_int (n + 1) \<le> rat_of_int (2 ^ nat b)"
      by (simp only: of_int_le_iff)
    then show ?thesis by simp
  qed
  finally have hi: "x < 2 powi b"
    using b1 by (simp add: power_int_nonneg_exp)
  show ?thesis
    using lo hi by (simp add: e)
next
  case False
  define y where "y = 1 / x"
  define c where "c = \<lceil>y\<rceil>"
  define m where "m = bitlen (c - 1)"
  have y: "1 < y" using False assms by (simp add: y_def)
  then have c: "1 < c" by (simp add: c_def less_ceiling_iff)
  then have c1: "0 < c - 1" by simp
  have b: "2 ^ nat (m - 1) \<le> c - 1" "c - 1 < 2 ^ nat m"
    using bitlen_bounds [OF c1] by (simp_all add: m_def)
  have m1: "1 \<le> m"
  proof -
    have "m \<noteq> 0" using c1 by (simp add: m_def bitlen_eq_zero_iff)
    moreover have "0 \<le> m" by (simp add: m_def bitlen_nonneg)
    ultimately show ?thesis by linarith
  qed
  have e: "ilog2 x = - m"
    using False by (simp add: ilog2_def m_def c_def y_def)
  have "y \<le> rat_of_int c" by (simp add: c_def)
  also have "rat_of_int c \<le> rat_of_int (2 ^ nat m)"
  proof -
    have "c \<le> 2 ^ nat m" using b(2) by simp
    then show ?thesis by (simp only: of_int_le_iff)
  qed
  finally have "y \<le> 2 ^ nat m" by simp
  then have "1 / x \<le> 2 ^ nat m" by (simp add: y_def)
  then have "1 \<le> 2 ^ nat m * x"
    using assms by (simp add: pos_divide_le_eq)
  then have "1 / 2 ^ nat m \<le> x"
    by (simp add: pos_divide_le_eq mult.commute)
  then have lo: "2 powi (- m) \<le> x"
    using m1 by (simp add: power_int_minus_divide power_int_nonneg_exp)
  have "rat_of_int (2 ^ nat (m - 1)) \<le> rat_of_int (c - 1)"
    using b(1) by (simp only: of_int_le_iff)
  also have "rat_of_int (c - 1) < y"
    unfolding c_def by simp linarith
  finally have "2 ^ nat (m - 1) < 1 / x" by (simp add: y_def)
  then have "2 ^ nat (m - 1) * x < 1"
    using assms by (simp add: pos_less_divide_eq)
  then have "x < 1 / 2 ^ nat (m - 1)"
    by (simp add: pos_less_divide_eq mult.commute)
  moreover have "2 powi (- m + 1) = (1 :: rat) / 2 ^ nat (m - 1)"
  proof -
    have "- m + 1 = - (m - 1)" by simp
    then have "(2 :: rat) powi (- m + 1) = 2 powi (- (m - 1))" by simp
    also have "\<dots> = 1 / 2 powi (m - 1)" by (rule power_int_minus_divide)
    also have "\<dots> = 1 / 2 ^ nat (m - 1)" using m1 by (simp add: power_int_nonneg_exp)
    finally show ?thesis .
  qed
  ultimately have hi: "x < 2 powi (- m + 1)" by simp
  show ?thesis
    using lo hi by (simp add: e)
qed

lemma ilog2_less:
  assumes "0 < x" "x < 2 powi k"
  shows "ilog2 x < k"
proof (rule ccontr)
  assume "\<not> ilog2 x < k"
  then have "k \<le> ilog2 x" by simp
  then have "(2 :: rat) powi k \<le> 2 powi (ilog2 x)"
    by (rule power_int_increasing) simp
  also have "\<dots> \<le> x"
    using ilog2_bounds [OF assms(1)] by simp
  finally show False using assms(2) by simp
qed

lemma float64_zero [simp]: "float64 0 = 0"
  by (simp add: float64_def)

lemma float64_minus: "float64 (- x) = - float64 x"
  by (simp add: float64_def Let_def round_even_minus)

lemma float64_error:
  assumes "x \<noteq> 0"
  shows "\<bar>float64 x - x\<bar> \<le> 2 powi (ilog2 \<bar>x\<bar> - 53)"
proof -
  define u :: rat where "u = 2 powi (ilog2 \<bar>x\<bar> - 52)"
  have u: "0 < u" by (simp add: u_def)
  have "float64 x - x = (of_int (round_even (x / u)) - x / u) * u"
    using assms u by (simp add: float64_def Let_def u_def algebra_simps)
  then have "\<bar>float64 x - x\<bar> = \<bar>of_int (round_even (x / u)) - x / u\<bar> * u"
    using u by (simp add: abs_mult)
  also have "\<dots> \<le> 1 / 2 * u"
    using u round_even_error [of "x / u"] by (intro mult_right_mono) simp_all
  also have "\<dots> = 2 powi (ilog2 \<bar>x\<bar> - 53)"
  proof -
    have "(2 :: rat) powi (ilog2 \<bar>x\<bar> - 53 + 1) = 2 powi (ilog2 \<bar>x\<bar> - 53) * 2 powi 1"
      by (rule power_int_add) simp
    then have "u = 2 powi (ilog2 \<bar>x\<bar> - 53) * 2"
      by (simp add: u_def)
    then show ?thesis by simp
  qed
  finally show ?thesis .
qed

lemma float64_error_below:
  assumes "x \<noteq> 0" "\<bar>x\<bar> < 2 powi k"
  shows "\<bar>float64 x - x\<bar> \<le> 2 powi (k - 54)"
proof -
  have "ilog2 \<bar>x\<bar> < k"
    using assms by (intro ilog2_less) simp_all
  then have "ilog2 \<bar>x\<bar> - 53 \<le> k - 54" by simp
  then have "(2 :: rat) powi (ilog2 \<bar>x\<bar> - 53) \<le> 2 powi (k - 54)"
    by (rule power_int_increasing) simp
  with float64_error [OF assms(1)] show ?thesis by simp
qed

lemma ulp_inverse:
  assumes "e \<le> 52"
  shows "(2 :: rat) powi (e - 52) = 1 / 2 ^ nat (52 - e)"
proof -
  have "e - 52 = - (52 - e)" by simp
  then have "(2 :: rat) powi (e - 52) = 2 powi (- (52 - e))" by simp
  also have "\<dots> = 1 / 2 powi (52 - e)" by (rule power_int_minus_divide)
  also have "\<dots> = 1 / 2 ^ nat (52 - e)" using assms by (simp add: power_int_nonneg_exp)
  finally show ?thesis .
qed

lemma float64_of_int:
  assumes "\<bar>m\<bar> < 2 ^ 53"
  shows "float64 (of_int m) = of_int m"
proof (cases "m = 0")
  case True
  then show ?thesis by simp
next
  case False
  define e where "e = ilog2 \<bar>rat_of_int m\<bar>"
  define P :: int where "P = 2 ^ nat (52 - e)"
  have pos: "0 < \<bar>rat_of_int m\<bar>" using False by simp
  have "rat_of_int \<bar>m\<bar> < rat_of_int (2 ^ 53)"
    using assms by (simp only: of_int_less_iff)
  then have "\<bar>rat_of_int m\<bar> < 2 powi 53" by simp
  then have e: "e < 53"
    unfolding e_def using pos by (intro ilog2_less)
  then have u: "(2 :: rat) powi (e - 52) = 1 / rat_of_int P"
    by (simp add: ulp_inverse P_def)
  have P: "0 < P" by (simp add: P_def)
  have "rat_of_int m / (1 / rat_of_int P) = rat_of_int (m * P)" by simp
  then have "round_even (rat_of_int m / (1 / rat_of_int P)) = m * P"
    by (simp only: round_even_of_int)
  then show ?thesis
    using False P by (simp add: float64_def Let_def e_def [symmetric] u)
qed

lemma float64_ge_int:
  assumes "0 \<le> m" "rat_of_int m \<le> x" "x < 2 powi 53"
  shows "rat_of_int m \<le> float64 x"
proof (cases "x = 0")
  case True
  with assms show ?thesis by simp
next
  case False
  with assms have pos: "0 < x" by simp
  define e where "e = ilog2 \<bar>x\<bar>"
  define P :: int where "P = 2 ^ nat (52 - e)"
  have e: "e < 53"
    unfolding e_def using pos assms(3) by (intro ilog2_less) simp_all
  then have u: "(2 :: rat) powi (e - 52) = 1 / rat_of_int P"
    by (simp add: ulp_inverse P_def)
  have P: "0 < P" by (simp add: P_def)
  then have rP: "0 < rat_of_int P" by simp
  have "rat_of_int (m * P) \<le> x * rat_of_int P"
    using assms(2) rP by (simp add: mult_right_mono)
  then have "rat_of_int (m * P) \<le> x / (1 / rat_of_int P)" by simp
  then have "m * P \<le> round_even (x / (1 / rat_of_int P))"
    by (rule round_even_ge)
  then have "rat_of_int (m * P) \<le> rat_of_int (round_even (x / (1 / rat_of_int P)))"
    by (simp only: of_int_le_iff)
  then have "rat_of_int (m * P) / rat_of_int P
      \<le> rat_of_int (round_even (x / (1 / rat_of_int P))) / rat_of_int P"
    using rP by (rule divide_right_mono [OF _ less_imp_le])
  moreover have "rat_of_int (m * P) / rat_of_int P = rat_of_int m"
    using rP by simp
  ultimately have "rat_of_int m \<le> rat_of_int (round_even (x / (1 / rat_of_int P))) * (1 / rat_of_int P)"
    by simp
  then show ?thesis
    using False by (simp add: float64_def Let_def e_def [symmetric] u)
qed

lemma float64_nonneg: "0 \<le> x \<Longrightarrow> x < 2 powi 53 \<Longrightarrow> 0 \<le> float64 x"
  using float64_ge_int [of 0 x] by simp

lemma float64_fraction:
  assumes "0 \<le> n" "n < 1000000000"
  shows "0 \<le> float64 (rat_of_int n / 1000000000)"
    and "float64 (rat_of_int n / 1000000000) \<le> 999999999 / 1000000000 + 2 powi (- 54)"
proof -
  define x where "x = rat_of_int n / 1000000000"
  have x: "0 \<le> x" "x \<le> 999999999 / 1000000000"
    using assms by (simp_all add: x_def)
  then have x1: "x < 2 powi 53" "\<bar>x\<bar> < 2 powi 0" by simp_all
  show "0 \<le> float64 (rat_of_int n / 1000000000)"
    using float64_nonneg [OF x(1) x1(1)] by (simp add: x_def)
  show "float64 (rat_of_int n / 1000000000) \<le> 999999999 / 1000000000 + 2 powi (- 54)"
  proof (cases "x = 0")
    case True
    then show ?thesis by (simp add: x_def [symmetric])
  next
    case False
    have "float64 x - x \<le> \<bar>float64 x - x\<bar>" by (rule abs_ge_self)
    also have "\<dots> \<le> 2 powi (0 - 54)" by (rule float64_error_below [OF False x1(2)])
    finally have "float64 x \<le> x + 2 powi (- 54)" by simp
    with x(2) show ?thesis by (simp add: x_def [symmetric])
  qed
qed

lemma sdiv_smod_nonneg:
  "0 \<le> d \<Longrightarrow> d sdiv 1000000000 = d div 1000000000 \<and> d smod 1000000000 = d mod 1000000000"
  for d :: int
  by (cases "d = 0") (simp_all add: signed_divide_int_def signed_modulo_int_def sgn_if)

lemma sdiv_smod_minus:
  "(- d) sdiv 1000000000 = - (d sdiv 1000000000) \<and> (- d) smod 1000000000 = - (d smod 1000000000)"
  for d :: int
  by (simp add: signed_divide_int_def signed_modulo_int_def sgn_if)

lemma Seconds_of_minus: "Seconds_of (- d) = - Seconds_of d"
proof -
  have "float64 (float64 (- a) + float64 (float64 (- b) / c))
      = - float64 (float64 a + float64 (float64 b / c))" for a b c
  proof -
    have "float64 (- a) + float64 (float64 (- b) / c) = - (float64 a + float64 (float64 b / c))"
      by (simp add: float64_minus)
    then show ?thesis by (simp only: float64_minus)
  qed
  then show ?thesis
    by (simp add: Seconds_of_def Let_def sdiv_smod_minus)
qed

lemma int_of_float64_minus: "int_of_float64 (- x) = - int_of_float64 x"
  by (cases "x = 0") (auto simp: int_of_float64_def ceiling_def)

lemma Seconds_of_nonneg_bounds:
  assumes "0 \<le> d" "d div 1000000000 < 2 ^ k" "k \<le> 52"
  shows "rat_of_int (d div 1000000000) \<le> Seconds_of d"
    and "Seconds_of d \<le> rat_of_int (d div 1000000000) + 999999999 / 1000000000
           + 2 powi (- 54) + 2 powi (int k - 54)"
proof -
  define sec where "sec = d div 1000000000"
  define nsec where "nsec = d mod 1000000000"
  define q where "q = float64 (rat_of_int nsec / 1000000000)"
  define s where "s = rat_of_int sec + q"
  have sec: "0 \<le> sec" "sec < 2 ^ k"
    using assms by (simp_all add: sec_def pos_imp_zdiv_nonneg_iff)
  have nsec: "0 \<le> nsec" "nsec < 1000000000"
    by (simp_all add: nsec_def)
  have "(2 :: int) ^ k \<le> 2 ^ 52"
    using assms(3) by (intro power_increasing) simp_all
  with sec have sec53: "\<bar>sec\<bar> < 2 ^ 53" by simp
  have nsec53: "\<bar>nsec\<bar> < 2 ^ 53" using nsec by simp
  have q: "0 \<le> q" "q \<le> 999999999 / 1000000000 + 2 powi (- 54)"
    unfolding q_def using nsec by (rule float64_fraction)+
  have S: "Seconds_of d = float64 s"
    using assms(1)
    by (simp add: Seconds_of_def Let_def sdiv_smod_nonneg sec_def [symmetric] nsec_def [symmetric]
        float64_of_int [OF sec53] float64_of_int [OF nsec53] q_def [symmetric] s_def)
  have "sec + 1 \<le> 2 ^ k" using sec by simp
  then have "rat_of_int (sec + 1) \<le> rat_of_int (2 ^ k)"
    by (simp only: of_int_le_iff)
  then have seck: "rat_of_int sec + 1 \<le> 2 ^ k" by simp
  have q1: "q < 1" using q(2) by simp
  have s: "0 \<le> s" "rat_of_int sec \<le> s" "s < 2 ^ k"
    using sec q q1 seck by (simp_all add: s_def)
  have "(2 :: rat) ^ k \<le> 2 ^ 53"
    using assms(3) by (intro power_increasing) simp_all
  with s have s53: "s < 2 powi 53" by simp
  show "rat_of_int (d div 1000000000) \<le> Seconds_of d"
    unfolding S sec_def [symmetric] by (rule float64_ge_int [OF sec(1) s(2) s53])
  have "float64 s \<le> s + 2 powi (int k - 54)"
  proof (cases "s = 0")
    case True
    then show ?thesis by simp
  next
    case False
    have "\<bar>s\<bar> < 2 powi (int k)" using s by simp
    then have "\<bar>float64 s - s\<bar> \<le> 2 powi (int k - 54)"
      by (rule float64_error_below [OF False])
    moreover have "float64 s - s \<le> \<bar>float64 s - s\<bar>" by (rule abs_ge_self)
    ultimately show ?thesis by linarith
  qed
  also have "s \<le> rat_of_int sec + (999999999 / 1000000000 + 2 powi (- 54))"
    unfolding s_def using q(2) by (rule add_left_mono)
  finally show "Seconds_of d \<le> rat_of_int (d div 1000000000) + 999999999 / 1000000000
           + 2 powi (- 54) + 2 powi (int k - 54)"
    unfolding S sec_def [symmetric] by (simp add: add.assoc)
qed

lemma Seconds_of_trunc_nonneg:
  assumes "0 \<le> d" "d < 2 ^ 24 * 1000000000"
  shows "int_of_float64 (Seconds_of d) = d div 1000000000"
proof -
  have sec: "d div 1000000000 < 2 ^ 24"
    using assms by simp
  have nonneg: "0 \<le> d div 1000000000"
    using assms(1) by (simp add: pos_imp_zdiv_nonneg_iff)
  note b = Seconds_of_nonneg_bounds [OF assms(1) sec]
  have lo: "rat_of_int (d div 1000000000) \<le> Seconds_of d"
    by (rule b(1)) simp
  have "Seconds_of d \<le> rat_of_int (d div 1000000000) + 999999999 / 1000000000
           + 2 powi (- 54) + 2 powi (int 24 - 54)"
    by (rule b(2)) simp
  also have "\<dots> < rat_of_int (d div 1000000000) + 1"
    by simp
  finally have hi: "Seconds_of d < rat_of_int (d div 1000000000) + 1" .
  have "0 \<le> Seconds_of d"
    using lo nonneg by (simp add: order_trans [of 0 "rat_of_int (d div 1000000000)"])
  moreover have "\<lfloor>Seconds_of d\<rfloor> = d div 1000000000"
    using lo hi by (rule floor_unique)
  ultimately show ?thesis
    by (simp add: int_of_float64_def)
qed

lemma Seconds_of_range_nonneg:
  assumes "0 \<le> d" "d < 2 ^ 63"
  shows "0 \<le> int_of_float64 (Seconds_of d)" and "int_of_float64 (Seconds_of d) \<le> 2 ^ 34"
proof -
  have sec: "d div 1000000000 < 2 ^ 34"
    using assms by simp
  have sec': "d div 1000000000 \<le> 9223372036"
    using assms by simp
  have nonneg: "0 \<le> d div 1000000000"
    using assms(1) by (simp add: pos_imp_zdiv_nonneg_iff)
  note b = Seconds_of_nonneg_bounds [OF assms(1) sec]
  have lo: "rat_of_int (d div 1000000000) \<le> Seconds_of d"
    by (rule b(1)) simp
  have "Seconds_of d \<le> rat_of_int (d div 1000000000) + 999999999 / 1000000000
           + 2 powi (- 54) + 2 powi (int 34 - 54)"
    by (rule b(2)) simp
  also have "\<dots> < rat_of_int (d div 1000000000) + 2"
    by simp
  finally have hi: "Seconds_of d < rat_of_int (d div 1000000000 + 2)"
    by simp
  have pos: "0 \<le> Seconds_of d"
    using lo nonneg by (simp add: order_trans [of 0 "rat_of_int (d div 1000000000)"])
  have "\<lfloor>Seconds_of d\<rfloor> < d div 1000000000 + 2"
    using hi by (simp only: floor_less_iff)
  then have "\<lfloor>Seconds_of d\<rfloor> \<le> 9223372037"
    using sec' by linarith
  moreover have "(9223372037 :: int) \<le> 2 ^ 34"
    by simp
  ultimately have fl: "\<lfloor>Seconds_of d\<rfloor> \<le> 2 ^ 34"
    by (rule order_trans)
  have "0 \<le> \<lfloor>Seconds_of d\<rfloor>"
    using pos by simp
  then show "0 \<le> int_of_float64 (Seconds_of d)"
    using pos by (simp add: int_of_float64_def)
  show "int_of_float64 (Seconds_of d) \<le> 2 ^ 34"
    using pos fl by (simp add: int_of_float64_def)
qed

lemma Seconds_of_trunc:
  assumes "\<bar>d\<bar> < 2 ^ 24 * 1000000000"
  shows "int_of_float64 (Seconds_of d) = d sdiv 1000000000"
proof (cases "0 \<le> d")
  case True
  with assms show ?thesis
    by (simp add: Seconds_of_trunc_nonneg sdiv_smod_nonneg)
next
  case False
  then have n: "0 \<le> - d" "- d < 2 ^ 24 * 1000000000"
    using assms by simp_all
  have "int_of_float64 (Seconds_of d) = - int_of_float64 (Seconds_of (- d))"
    by (simp add: Seconds_of_minus int_of_float64_minus)
  also have "\<dots> = - ((- d) div 1000000000)"
    by (simp only: Seconds_of_trunc_nonneg [OF n])
  also have "\<dots> = - ((- d) sdiv 1000000000)"
    using n(1) by (simp only: sdiv_smod_nonneg)
  also have "\<dots> = d sdiv 1000000000"
    by (simp only: sdiv_smod_minus minus_minus)
  finally show ?thesis .
qed

lemma Seconds_of_range:
  assumes "- (2 ^ 63) \<le> d" "d < 2 ^ 63"
  shows "\<bar>int_of_float64 (Seconds_of d)\<bar> \<le> 2 ^ 34"
proof (cases "0 \<le> d")
  case True
  with assms Seconds_of_range_nonneg [of d] show ?thesis by simp
next
  case False
  show ?thesis
  proof (cases "d = - (2 ^ 63)")
    case True
    have "int_of_float64 (Seconds_of (- (2 ^ 63))) = - 9223372036"
      by code_simp
    with True show ?thesis by simp
  next
    case False
    with \<open>\<not> 0 \<le> d\<close> assms have n: "0 \<le> - d" "- d < 2 ^ 63" by simp_all
    have "int_of_float64 (Seconds_of d) = - int_of_float64 (Seconds_of (- d))"
      by (simp add: Seconds_of_minus int_of_float64_minus)
    with Seconds_of_range_nonneg [OF n] show ?thesis by simp
  qed
qed

text \<open>
  Over the whole range of a \<open>Duration\<close>, the whole seconds that the conversion through
  \<open>float64\<close> yields differ by at most one from the seconds truncated towards zero.
\<close>

lemma Seconds_of_near_nonneg:
  assumes "0 \<le> d" "d < 2 ^ 63"
  shows "d div 1000000000 \<le> int_of_float64 (Seconds_of d)"
    and "int_of_float64 (Seconds_of d) \<le> d div 1000000000 + 1"
proof -
  have sec: "d div 1000000000 < 2 ^ 34"
    using assms by simp
  have nonneg: "0 \<le> d div 1000000000"
    using assms(1) by (simp add: pos_imp_zdiv_nonneg_iff)
  note b = Seconds_of_nonneg_bounds [OF assms(1) sec]
  have lo: "rat_of_int (d div 1000000000) \<le> Seconds_of d"
    by (rule b(1)) simp
  have "Seconds_of d \<le> rat_of_int (d div 1000000000) + 999999999 / 1000000000
           + 2 powi (- 54) + 2 powi (int 34 - 54)"
    by (rule b(2)) simp
  also have "\<dots> < rat_of_int (d div 1000000000) + 2"
    by simp
  finally have hi: "Seconds_of d < rat_of_int (d div 1000000000 + 2)"
    by simp
  have pos: "0 \<le> Seconds_of d"
    using lo nonneg by (simp add: order_trans [of 0 "rat_of_int (d div 1000000000)"])
  have fl: "int_of_float64 (Seconds_of d) = \<lfloor>Seconds_of d\<rfloor>"
    using pos by (simp add: int_of_float64_def)
  have "\<lfloor>Seconds_of d\<rfloor> < d div 1000000000 + 2"
    using hi by (simp only: floor_less_iff)
  then show "int_of_float64 (Seconds_of d) \<le> d div 1000000000 + 1"
    unfolding fl by simp
  show "d div 1000000000 \<le> int_of_float64 (Seconds_of d)"
    unfolding fl using lo by (simp only: le_floor_iff)
qed

lemma Seconds_of_near:
  assumes "- (2 ^ 63) \<le> d" "d < 2 ^ 63"
  shows "\<bar>int_of_float64 (Seconds_of d) - d sdiv 1000000000\<bar> \<le> 1"
proof (cases "0 \<le> d")
  case True
  with assms Seconds_of_near_nonneg [of d] show ?thesis
    by (simp add: sdiv_smod_nonneg)
next
  case False
  show ?thesis
  proof (cases "d = - (2 ^ 63)")
    case True
    have "int_of_float64 (Seconds_of (- (2 ^ 63))) = - 9223372036"
      by code_simp
    moreover have "(- (2 ^ 63) :: int) sdiv 1000000000 = - 9223372036"
      by (simp add: signed_divide_int_def)
    ultimately show ?thesis using True by simp
  next
    case False
    with \<open>\<not> 0 \<le> d\<close> assms have n: "0 \<le> - d" "- d < 2 ^ 63" by simp_all
    have "int_of_float64 (Seconds_of d) = - int_of_float64 (Seconds_of (- d))"
      by (simp add: Seconds_of_minus int_of_float64_minus)
    moreover have "d sdiv 1000000000 = - ((- d) div 1000000000)"
      using sdiv_smod_minus [of "- d"] sdiv_smod_nonneg [OF n(1)]
      by simp
    ultimately show ?thesis
      using Seconds_of_near_nonneg [OF n] by simp
  qed
qed


text \<open>
  The quotient of two integers below \<open>2\<^sup>5\<^sup>3\<close>, computed in \<open>float64\<close>, has the same
  ceiling as the exact quotient: this is what \<open>cardRows\<close> relies on.
\<close>

lemma float64_le_int:
  assumes "0 < x" "x \<le> rat_of_int m" "x < 2 powi 53"
  shows "float64 x \<le> rat_of_int m"
proof -
  define e where "e = ilog2 x"
  define P :: int where "P = 2 ^ nat (52 - e)"
  have e: "e < 53"
    unfolding e_def using assms(1,3) by (intro ilog2_less) simp_all
  then have u: "(2 :: rat) powi (e - 52) = 1 / rat_of_int P"
    by (simp add: ulp_inverse P_def)
  have P: "0 < P" by (simp add: P_def)
  then have rP: "0 < rat_of_int P" by simp
  have "x * rat_of_int P \<le> rat_of_int (m * P)"
    using assms(2) rP by (simp add: mult_right_mono)
  then have "x / (1 / rat_of_int P) \<le> rat_of_int (m * P)" by simp
  then have "round_even (x / (1 / rat_of_int P)) \<le> m * P"
    by (rule round_even_le)
  then have "rat_of_int (round_even (x / (1 / rat_of_int P))) \<le> rat_of_int (m * P)"
    by (simp only: of_int_le_iff)
  then have "rat_of_int (round_even (x / (1 / rat_of_int P))) / rat_of_int P
      \<le> rat_of_int (m * P) / rat_of_int P"
    using rP by (rule divide_right_mono [OF _ less_imp_le])
  moreover have "rat_of_int (m * P) / rat_of_int P = rat_of_int m"
    using rP by simp
  ultimately have "rat_of_int (round_even (x / (1 / rat_of_int P))) * (1 / rat_of_int P) \<le> rat_of_int m"
    by simp
  then show ?thesis
    using assms(1) by (simp add: float64_def Let_def e_def [symmetric] u)
qed

lemma float64_relative_error:
  assumes "0 < x"
  shows "x - x * 2 powi (- 53) \<le> float64 x"
proof -
  have x0: "x \<noteq> 0" using assms by simp
  have "(2 :: rat) powi (ilog2 x + - 53) = 2 powi (ilog2 x) * 2 powi (- 53)"
    by (rule power_int_add) simp
  also have "\<dots> \<le> x * 2 powi (- 53)"
    using ilog2_bounds [OF assms] by (intro mult_right_mono) simp_all
  finally have u: "(2 :: rat) powi (ilog2 \<bar>x\<bar> - 53) \<le> x * 2 powi (- 53)"
    using assms by simp
  have "x - float64 x \<le> \<bar>float64 x - x\<bar>" by simp
  also have "\<dots> \<le> 2 powi (ilog2 \<bar>x\<bar> - 53)" by (rule float64_error [OF x0])
  also note u
  finally show ?thesis by simp
qed

lemma float64_quotient_ceiling:
  assumes "1 \<le> c" "c < 2 ^ 53" "0 \<le> n" "n < 2 ^ 53"
  shows "\<lceil>float64 (float64 (rat_of_int n) / float64 (rat_of_int c))\<rceil> = \<lceil>rat_of_int n / rat_of_int c\<rceil>"
proof (cases "n = 0")
  case True
  then show ?thesis by simp
next
  case False
  define x where "x = rat_of_int n / rat_of_int c"
  define z where "z = \<lceil>x\<rceil>"
  have c: "0 < rat_of_int c" using assms(1) by simp
  have n: "0 < rat_of_int n" using assms(3) False by simp
  have x: "0 < x" using c n by (simp add: x_def)
  have "x \<le> rat_of_int n"
    using assms(1) n by (simp add: x_def pos_divide_le_eq mult_le_cancel_left1)
  also have "rat_of_int n < rat_of_int (2 ^ 53)"
    using assms(4) by (simp only: of_int_less_iff)
  finally have x53: "x < 2 powi 53" by simp
  have ex: "float64 (rat_of_int n) = rat_of_int n" "float64 (rat_of_int c) = rat_of_int c"
    using assms by (simp_all add: float64_of_int)
  have up: "float64 x \<le> rat_of_int z"
    by (rule float64_le_int [OF x _ x53]) (simp add: z_def)
  have "rat_of_int z - 1 < x" unfolding z_def by linarith
  then have "(rat_of_int z - 1) * rat_of_int c < rat_of_int n"
    using c by (simp add: x_def pos_less_divide_eq)
  then have "rat_of_int ((z - 1) * c) < rat_of_int n" by simp
  then have "(z - 1) * c < n" by (simp only: of_int_less_iff)
  then have "(z - 1) * c + 1 \<le> n" by simp
  then have "rat_of_int ((z - 1) * c + 1) \<le> rat_of_int n" by (simp only: of_int_le_iff)
  then have "(rat_of_int z - 1) * rat_of_int c + 1 \<le> rat_of_int n" by simp
  then have "((rat_of_int z - 1) * rat_of_int c + 1) / rat_of_int c \<le> x"
    unfolding x_def using c by (intro divide_right_mono) simp_all
  then have gap: "rat_of_int z - 1 + 1 / rat_of_int c \<le> x"
    using c by (simp add: add_divide_distrib)
  have "rat_of_int n * 2 powi (- 53) < 1"
  proof -
    have "rat_of_int n < rat_of_int (2 ^ 53)"
      using assms(4) by (simp only: of_int_less_iff)
    then show ?thesis by simp
  qed
  then have "rat_of_int n * 2 powi (- 53) / rat_of_int c < 1 / rat_of_int c"
    using c by (rule divide_strict_right_mono)
  then have small: "x * 2 powi (- 53) < 1 / rat_of_int c"
    by (simp add: x_def)
  have "rat_of_int z - 1 < x - x * 2 powi (- 53)"
    using gap small by linarith
  also have "\<dots> \<le> float64 x" by (rule float64_relative_error [OF x])
  finally have lo: "rat_of_int z - 1 < float64 x" .
  have "\<lceil>float64 x\<rceil> = z"
    using lo up by (rule ceiling_unique)
  then show ?thesis
    by (simp add: ex x_def [symmetric] z_def)
qed

section \<open>Average elapsed time\<close>

lemma wrap64_id: "- (2 ^ 63) \<le> x \<Longrightarrow> x < 2 ^ 63 \<Longrightarrow> wrap64 x = x"
  by (simp add: wrap64_def)

lemma whole_seconds_range: "\<bar>whole_seconds r\<bar> \<le> 2 ^ 34"
proof -
  have "- (2 ^ 63) \<le> sint (Elapsed r)" "sint (Elapsed r) < 2 ^ 63"
    using sint_ge [of "Elapsed r"] sint_lt [of "Elapsed r"] by simp_all
  then show ?thesis
    unfolding whole_seconds_def Seconds_def by (rule Seconds_of_range)
qed

lemma AverageElapsed_loop_sum:
  "0 \<le> i \<Longrightarrow> \<bar>totalTime\<bar> \<le> i * 2 ^ 34 \<Longrightarrow>
   AverageElapsed_loop i rs totalTime =
     totalTime + sum_list (map whole_seconds (take (nat (defaultMaxRuns + 1 - i)) rs))"
proof (induction rs arbitrary: i totalTime)
  case Nil
  then show ?case by simp
next
  case (Cons r rs)
  show ?case
  proof (cases "i > defaultMaxRuns")
    case True
    then show ?thesis by simp
  next
    case False
    then have i5: "i \<le> 5" by (simp add: defaultMaxRuns_def)
    have n: "nat (defaultMaxRuns + 1 - i) = Suc (nat (defaultMaxRuns + 1 - (i + 1)))"
      using False by simp
    define v where "v = whole_seconds r"
    have v: "\<bar>v\<bar> \<le> 2 ^ 34" unfolding v_def by (rule whole_seconds_range)
    have "i * 2 ^ 34 \<le> 5 * (2 ^ 34 :: int)"
      using i5 by (rule mult_right_mono) simp
    with Cons.prems(2) have t: "\<bar>totalTime\<bar> \<le> 5 * 2 ^ 34" by linarith
    from t v have "- (2 ^ 63) \<le> totalTime + v" "totalTime + v < 2 ^ 63" by simp_all
    then have w: "wrap64 (totalTime + v) = totalTime + v" by (rule wrap64_id)
    have i1: "0 \<le> i + 1" using Cons.prems(1) by simp
    have t1: "\<bar>totalTime + v\<bar> \<le> (i + 1) * 2 ^ 34"
      using Cons.prems(2) v by (simp add: algebra_simps)
    have "AverageElapsed_loop i (r # rs) totalTime = AverageElapsed_loop (i + 1) rs (totalTime + v)"
      using False w by (simp add: v_def whole_seconds_def)
    also have "\<dots> = totalTime + v + sum_list (map whole_seconds (take (nat (defaultMaxRuns + 1 - (i + 1))) rs))"
      by (rule Cons.IH [OF i1 t1])
    finally show ?thesis
      by (simp only: n take_Suc_Cons list.map sum_list.Cons v_def add.assoc)
  qed
qed

lemma AverageElapsed_eq:
  "AverageElapsed w =
     (case ParseDuration_seconds
             (sum_list (map whole_seconds (take (nat (defaultMaxRuns + 1)) (Runs w)))
                sdiv defaultMaxRuns) of
        Inl e \<Rightarrow> 0
      | Inr d \<Rightarrow> d)"
  using AverageElapsed_loop_sum [of 0 0 "Runs w"] by (simp add: AverageElapsed_def)

lemma sint_seconds:
  assumes "\<bar>v\<bar> \<le> 9223372036"
  shows "sint (word_of_int (v * 1000000000) :: Duration) = v * 1000000000"
proof -
  have "- (2 ^ 63) \<le> v * 1000000000" "v * 1000000000 < 2 ^ 63"
    using assms by simp_all
  then have "signed_take_bit 63 (v * 1000000000) = v * 1000000000"
    by (rule signed_take_bit_int_eq_self)
  moreover have "sint (word_of_int k :: Duration) = signed_take_bit 63 k" for k
    by (simp add: sint_sbintrunc')
  ultimately show ?thesis by (simp only:)
qed

lemma whole_seconds_near: "\<bar>whole_seconds r - truncated_seconds r\<bar> \<le> 1"
proof -
  have "- (2 ^ 63) \<le> sint (Elapsed r)" "sint (Elapsed r) < 2 ^ 63"
    using sint_ge [of "Elapsed r"] sint_lt [of "Elapsed r"] by simp_all
  then show ?thesis
    unfolding whole_seconds_def truncated_seconds_def Seconds_def by (rule Seconds_of_near)
qed

lemma AverageElapsed_cases:
  fixes w :: workflow
  defines "q \<equiv> sum_list (map whole_seconds (take (nat (defaultMaxRuns + 1)) (Runs w)))
                 sdiv defaultMaxRuns"
  shows "\<bar>q\<bar> \<le> 9223372036 \<Longrightarrow> sint (AverageElapsed w) = q * 1000000000"
    and "9223372036 < \<bar>q\<bar> \<Longrightarrow> AverageElapsed w = 0"
proof -
  assume a: "\<bar>q\<bar> \<le> 9223372036"
  then have "ParseDuration_seconds q = Inr (word_of_int (q * 1000000000))"
    by (simp add: ParseDuration_seconds_def)
  then have "AverageElapsed w = word_of_int (q * 1000000000)"
    by (simp add: AverageElapsed_eq q_def [symmetric])
  then show "sint (AverageElapsed w) = q * 1000000000"
    by (simp only: sint_seconds [OF a])
next
  assume "9223372036 < \<bar>q\<bar>"
  then have "ParseDuration_seconds q = Inl (Error ''time: invalid duration'')"
    by (simp add: ParseDuration_seconds_def)
  then show "AverageElapsed w = 0"
    by (simp add: AverageElapsed_eq q_def [symmetric])
qed

lemma truncated_eq_whole:
  assumes "below_2_24_seconds r"
  shows "whole_seconds r = truncated_seconds r"
  using assms
  by (simp add: below_2_24_seconds_def whole_seconds_def truncated_seconds_def Seconds_def
      Seconds_of_trunc)

text \<open>
  Claim C2, as amended. For every workflow, take the sum of the whole-second elapsed
  durations of the runs in the bounded prefix (the first \<open>N + 1\<close> runs, \<open>N = 5\<close>, the ones
  \<open>RenderHealth\<close> examines), divided by the fixed cap \<open>N\<close>, and not by the number of runs
  examined, with Go's integer division. If this quotient is at most 9223372036 in
  absolute value, which is the most seconds that a duration holds, \<open>AverageElapsed\<close> is
  the quotient re-expressed as a duration, that many seconds; otherwise it is the zero
  duration. The whole seconds of a run, \<open>int(r.Elapsed.Seconds())\<close>, are its elapsed
  duration truncated to seconds if that is below \<open>2\<^sup>2\<^sup>4\<close> seconds in absolute value,
  and differ from it by at most one second in any case. With fewer than \<open>N\<close> runs the sum
  is that of the runs there are: the missing runs contribute zero.
\<close>

theorem AverageElapsed_fixed_divisor:
  "(\<bar>sum_list (map whole_seconds (take (nat (defaultMaxRuns + 1)) (Runs w))) sdiv defaultMaxRuns\<bar>
        \<le> 9223372036 \<longrightarrow>
      sint (AverageElapsed w) =
        (sum_list (map whole_seconds (take (nat (defaultMaxRuns + 1)) (Runs w))) sdiv defaultMaxRuns)
          * 1000000000)
   \<and> (9223372036 <
        \<bar>sum_list (map whole_seconds (take (nat (defaultMaxRuns + 1)) (Runs w))) sdiv defaultMaxRuns\<bar>
        \<longrightarrow> AverageElapsed w = 0)
   \<and> \<bar>whole_seconds r - truncated_seconds r\<bar> \<le> 1
   \<and> (below_2_24_seconds r \<longrightarrow> whole_seconds r = truncated_seconds r)
   \<and> (int (length (Runs w)) < defaultMaxRuns \<longrightarrow>
      sum_list (map whole_seconds (take (nat (defaultMaxRuns + 1)) (Runs w)))
        = sum_list (map whole_seconds (Runs w)))
   \<and> defaultMaxRuns = 5"
proof (intro conjI impI)
  assume "\<bar>sum_list (map whole_seconds (take (nat (defaultMaxRuns + 1)) (Runs w))) sdiv defaultMaxRuns\<bar>
        \<le> 9223372036"
  then show "sint (AverageElapsed w) =
        (sum_list (map whole_seconds (take (nat (defaultMaxRuns + 1)) (Runs w))) sdiv defaultMaxRuns)
          * 1000000000"
    by (rule AverageElapsed_cases(1))
next
  assume "9223372036 <
        \<bar>sum_list (map whole_seconds (take (nat (defaultMaxRuns + 1)) (Runs w))) sdiv defaultMaxRuns\<bar>"
  then show "AverageElapsed w = 0"
    by (rule AverageElapsed_cases(2))
next
  show "\<bar>whole_seconds r - truncated_seconds r\<bar> \<le> 1"
    by (rule whole_seconds_near)
next
  assume "below_2_24_seconds r"
  then show "whole_seconds r = truncated_seconds r"
    by (rule truncated_eq_whole)
next
  assume "int (length (Runs w)) < defaultMaxRuns"
  then show "sum_list (map whole_seconds (take (nat (defaultMaxRuns + 1)) (Runs w)))
        = sum_list (map whole_seconds (Runs w))"
    by simp
next
  show "defaultMaxRuns = 5" by (rule defaultMaxRuns_def)
qed

text \<open>
  The six runs of the workflow \<open>endless\<close> have 9223372036 whole seconds each; a fifth of
  their sum is 11068046443 seconds.
\<close>

lemma sample_endless_seconds:
  "map whole_seconds (take (nat (defaultMaxRuns + 1)) (Runs sample_endless))
     = [9223372036, 9223372036, 9223372036, 9223372036, 9223372036, 9223372036]"
proof -
  have "whole_seconds (timed_run (word_of_int maxDuration)) = 9223372036"
    unfolding timed_run_def whole_seconds_def Seconds_def maxDuration_def by code_simp
  then show ?thesis
    by (simp add: sample_endless_def defaultMaxRuns_def eval_nat_numeral)
qed

lemma sample_endless_quotient:
  "sum_list (map whole_seconds (take (nat (defaultMaxRuns + 1)) (Runs sample_endless)))
     sdiv defaultMaxRuns = 11068046443"
  unfolding sample_endless_seconds by (simp add: defaultMaxRuns_def signed_divide_int_def)

theorem AverageElapsed_fixed_divisor_witness:
  "\<bar>sum_list (map whole_seconds (take (nat (defaultMaxRuns + 1)) (Runs sample_quick)))
       sdiv defaultMaxRuns\<bar> \<le> 9223372036
   \<and> int (length (Runs sample_quick)) < defaultMaxRuns
   \<and> below_2_24_seconds (timed_run 31500000000)
   \<and> truncated_seconds (timed_run 31500000000) = 31
   \<and> whole_seconds (timed_run 31500000000) = 31
   \<and> map whole_seconds (Runs sample_quick) = [90, 31]
   \<and> sint (AverageElapsed sample_quick) = 24000000000
   \<and> 9223372036 <
        \<bar>sum_list (map whole_seconds (take (nat (defaultMaxRuns + 1)) (Runs sample_endless)))
           sdiv defaultMaxRuns\<bar>
   \<and> AverageElapsed sample_endless = 0"
proof -
  have ws: "map whole_seconds (Runs sample_quick) = [90, 31]"
    unfolding sample_quick_def timed_run_def whole_seconds_def Seconds_def by code_simp
  have len: "int (length (Runs sample_quick)) < defaultMaxRuns"
    by (simp add: sample_quick_def defaultMaxRuns_def)
  have tk: "take (nat (defaultMaxRuns + 1)) (Runs sample_quick) = Runs sample_quick"
    using len by simp
  have q: "(121::int) sdiv 5 = 24"
    by (simp add: signed_divide_int_def)
  have small: "\<bar>sum_list (map whole_seconds (take (nat (defaultMaxRuns + 1)) (Runs sample_quick)))
       sdiv defaultMaxRuns\<bar> \<le> 9223372036"
    unfolding tk ws by (simp add: defaultMaxRuns_def q)
  have b: "below_2_24_seconds (timed_run 31500000000)"
    by (simp add: below_2_24_seconds_def timed_run_def)
  have t: "truncated_seconds (timed_run 31500000000) = 31"
    by (simp add: truncated_seconds_def timed_run_def signed_divide_int_def)
  have big: "9223372036 <
        \<bar>sum_list (map whole_seconds (take (nat (defaultMaxRuns + 1)) (Runs sample_endless)))
           sdiv defaultMaxRuns\<bar>"
    unfolding sample_endless_quotient by simp
  note T = AverageElapsed_fixed_divisor [of sample_quick "timed_run 31500000000"]
  note T' = AverageElapsed_fixed_divisor [of sample_endless "timed_run 31500000000"]
  from T small have "sint (AverageElapsed sample_quick) =
        (sum_list (map whole_seconds (take (nat (defaultMaxRuns + 1)) (Runs sample_quick)))
           sdiv defaultMaxRuns) * 1000000000"
    by (simp only: simp_thms)
  then have s: "sint (AverageElapsed sample_quick) = 24000000000"
    unfolding tk ws by (simp add: defaultMaxRuns_def q)
  from T b have "whole_seconds (timed_run 31500000000) = truncated_seconds (timed_run 31500000000)"
    by (simp only: simp_thms)
  then have w: "whole_seconds (timed_run 31500000000) = 31"
    by (simp only: t)
  from T' big have z: "AverageElapsed sample_endless = 0"
    by (simp only: simp_thms)
  from small len b t w ws s big z show ?thesis
    by (intro conjI)
qed

text \<open>
  The claim as worded fails when the quotient is no duration. A completed run whose
  payload has no \<open>created_at\<close> gets the maximum duration as its elapsed duration. For a
  workflow with six such runs the sum of the whole seconds divided by the cap is
  11068046443 seconds, but \<open>AverageElapsed\<close> is zero: \<open>ParseDuration\<close> fails on
  \<open>11068046443s\<close> and its error is dropped.
\<close>

theorem AverageElapsed_endless:
  "Elapsed (run_of (sample_run 1 ''run/1'' \<lparr>CreatedAt := 0\<rparr>)) = word_of_int maxDuration
   \<and> map whole_seconds (take (nat (defaultMaxRuns + 1)) (Runs sample_endless))
       = [9223372036, 9223372036, 9223372036, 9223372036, 9223372036, 9223372036]
   \<and> sum_list (map whole_seconds (take (nat (defaultMaxRuns + 1)) (Runs sample_endless)))
       sdiv defaultMaxRuns = 11068046443
   \<and> AverageElapsed sample_endless = 0"
proof -
  have "Elapsed (run_of (sample_run 1 ''run/1'' \<lparr>CreatedAt := 0\<rparr>)) = word_of_int maxDuration"
    by (simp add: run_of_def sample_run_def sample_now_def time_Sub_def minDuration_def
        maxDuration_def)
  moreover have "AverageElapsed sample_endless = 0"
    unfolding AverageElapsed_eq sample_endless_quotient
    by (simp add: ParseDuration_seconds_def)
  ultimately show ?thesis
    using sample_endless_seconds sample_endless_quotient by (intro conjI)
qed

lemma AverageElapsed_whole_seconds:
  "\<exists>v. \<bar>v\<bar> \<le> 9223372036 \<and> sint (AverageElapsed w) = v * 1000000000"
proof -
  define avg where
    "avg = sum_list (map whole_seconds (take (nat (defaultMaxRuns + 1)) (Runs w))) sdiv defaultMaxRuns"
  show ?thesis
  proof (cases "\<bar>avg\<bar> \<le> 9223372036")
    case True
    then have "AverageElapsed w = word_of_int (avg * 1000000000)"
      by (simp add: AverageElapsed_eq avg_def [symmetric] ParseDuration_seconds_def)
    then have "sint (AverageElapsed w) = avg * 1000000000"
      by (simp only: sint_seconds [OF True])
    with True show ?thesis by blast
  next
    case False
    then have "AverageElapsed w = 0"
      by (simp add: AverageElapsed_eq avg_def [symmetric] ParseDuration_seconds_def)
    then have "sint (AverageElapsed w) = 0 * 1000000000" by simp
    then show ?thesis by (intro exI [of _ 0]) simp
  qed
qed

lemma truncated_seconds_bound:
  assumes "below_2_24_seconds r"
  shows "\<bar>truncated_seconds r\<bar> \<le> 2 ^ 24"
proof -
  define d where "d = sint (Elapsed r)"
  have d: "\<bar>d\<bar> < 2 ^ 24 * 1000000000"
    using assms by (simp add: below_2_24_seconds_def d_def)
  then have "\<bar>d\<bar> div 1000000000 < 2 ^ 24" by simp
  moreover have "\<bar>d sdiv 1000000000\<bar> = \<bar>d\<bar> div 1000000000"
    by (cases "d = 0") (simp_all add: signed_divide_int_def abs_mult)
  ultimately show ?thesis
    by (simp add: truncated_seconds_def d_def [symmetric])
qed

lemma sum_list_bound:
  fixes f :: "'a \<Rightarrow> int"
  shows "list_all (\<lambda>x. \<bar>f x\<bar> \<le> B) xs \<Longrightarrow> \<bar>sum_list (map f xs)\<bar> \<le> int (length xs) * B"
proof (induction xs)
  case Nil
  then show ?case by simp
next
  case (Cons x xs)
  then have "\<bar>f x\<bar> \<le> B" "\<bar>sum_list (map f xs)\<bar> \<le> int (length xs) * B" by simp_all
  then show ?case by (simp add: algebra_simps)
qed

lemma AverageElapsed_truncated:
  assumes "list_all below_2_24_seconds (take (nat (defaultMaxRuns + 1)) (Runs w))"
  shows "\<bar>sum_list (map truncated_seconds (take (nat (defaultMaxRuns + 1)) (Runs w)))
            sdiv defaultMaxRuns\<bar> \<le> 9223372036"
    and "AverageElapsed w =
           word_of_int (sum_list (map truncated_seconds (take (nat (defaultMaxRuns + 1)) (Runs w)))
                          sdiv defaultMaxRuns * 1000000000)"
proof -
  let ?rs = "take (nat (defaultMaxRuns + 1)) (Runs w)"
  have "map whole_seconds ?rs = map truncated_seconds ?rs"
    by (rule map_cong [OF refl]) (use assms in \<open>simp add: list_all_iff truncated_eq_whole\<close>)
  then have eq: "sum_list (map whole_seconds ?rs) = sum_list (map truncated_seconds ?rs)"
    by (simp only:)
  have "list_all (\<lambda>r. \<bar>truncated_seconds r\<bar> \<le> 2 ^ 24) ?rs"
    using assms unfolding list_all_iff by (blast intro: truncated_seconds_bound)
  then have "\<bar>sum_list (map truncated_seconds ?rs)\<bar> \<le> int (length ?rs) * 2 ^ 24"
    by (rule sum_list_bound)
  moreover have "int (length ?rs) * 2 ^ 24 \<le> 6 * (2 ^ 24 :: int)"
    by (rule mult_right_mono) (simp_all add: defaultMaxRuns_def)
  ultimately have s: "\<bar>sum_list (map truncated_seconds ?rs)\<bar> \<le> 6 * 2 ^ 24"
    by (rule order_trans)
  have "\<bar>sum_list (map truncated_seconds ?rs) sdiv defaultMaxRuns\<bar>
      = \<bar>sum_list (map truncated_seconds ?rs)\<bar> div 5"
    by (cases "sum_list (map truncated_seconds ?rs) = 0")
      (simp_all add: signed_divide_int_def abs_mult defaultMaxRuns_def)
  also have "\<dots> \<le> 9223372036"
    using s by simp
  finally show a: "\<bar>sum_list (map truncated_seconds ?rs) sdiv defaultMaxRuns\<bar> \<le> 9223372036" .
  then show "AverageElapsed w =
      word_of_int (sum_list (map truncated_seconds ?rs) sdiv defaultMaxRuns * 1000000000)"
    by (simp add: AverageElapsed_eq eq ParseDuration_seconds_def)
qed


text \<open>
  Claim C10, as amended. \<open>AverageElapsed\<close> adds up the whole seconds
  \<open>int(r.Elapsed.Seconds())\<close> of the runs in the prefix in integers and divides the sum
  by the cap with a division that truncates towards zero; its result is that many
  seconds if they are at most 9223372036 in absolute value and zero otherwise, so it is
  always a whole number of seconds. As long as the elapsed durations of the runs in the
  prefix are below \<open>2\<^sup>2\<^sup>4\<close> seconds (about 194 days) in absolute value, each of them is
  truncated towards zero to whole seconds before summing, and the result does not depend
  on their sub-second parts.
\<close>

theorem AverageElapsed_truncates:
  "(\<bar>sum_list (map whole_seconds (take (nat (defaultMaxRuns + 1)) (Runs w))) sdiv defaultMaxRuns\<bar>
        \<le> 9223372036 \<longrightarrow>
      sint (AverageElapsed w) =
        (sum_list (map whole_seconds (take (nat (defaultMaxRuns + 1)) (Runs w))) sdiv defaultMaxRuns)
          * 1000000000)
   \<and> (9223372036 <
        \<bar>sum_list (map whole_seconds (take (nat (defaultMaxRuns + 1)) (Runs w))) sdiv defaultMaxRuns\<bar>
        \<longrightarrow> AverageElapsed w = 0)
   \<and> x sdiv defaultMaxRuns = sgn x * (\<bar>x\<bar> div 5)
   \<and> 1000000000 dvd sint (AverageElapsed w)
   \<and> truncated_seconds r = sgn (sint (Elapsed r)) * (\<bar>sint (Elapsed r)\<bar> div 1000000000)
   \<and> (below_2_24_seconds r \<longrightarrow> whole_seconds r = truncated_seconds r)
   \<and> (list_all below_2_24_seconds (take (nat (defaultMaxRuns + 1)) (Runs w)) \<longrightarrow>
      sint (AverageElapsed w) =
        (sum_list (map truncated_seconds (take (nat (defaultMaxRuns + 1)) (Runs w)))
           sdiv defaultMaxRuns) * 1000000000)
   \<and> (list_all below_2_24_seconds (take (nat (defaultMaxRuns + 1)) (Runs w))
      \<and> list_all below_2_24_seconds (take (nat (defaultMaxRuns + 1)) (Runs w'))
      \<and> map truncated_seconds (take (nat (defaultMaxRuns + 1)) (Runs w))
          = map truncated_seconds (take (nat (defaultMaxRuns + 1)) (Runs w')) \<longrightarrow>
      AverageElapsed w = AverageElapsed w')"
proof (intro conjI impI)
  assume "\<bar>sum_list (map whole_seconds (take (nat (defaultMaxRuns + 1)) (Runs w))) sdiv defaultMaxRuns\<bar>
        \<le> 9223372036"
  then show "sint (AverageElapsed w) =
        (sum_list (map whole_seconds (take (nat (defaultMaxRuns + 1)) (Runs w))) sdiv defaultMaxRuns)
          * 1000000000"
    by (rule AverageElapsed_cases(1))
next
  assume "9223372036 <
        \<bar>sum_list (map whole_seconds (take (nat (defaultMaxRuns + 1)) (Runs w))) sdiv defaultMaxRuns\<bar>"
  then show "AverageElapsed w = 0"
    by (rule AverageElapsed_cases(2))
next
  show "x sdiv defaultMaxRuns = sgn x * (\<bar>x\<bar> div 5)"
    by (simp add: signed_divide_int_def defaultMaxRuns_def)
next
  from AverageElapsed_whole_seconds [of w]
  obtain v where "sint (AverageElapsed w) = v * 1000000000" by blast
  then show "1000000000 dvd sint (AverageElapsed w)" by simp
next
  show "truncated_seconds r = sgn (sint (Elapsed r)) * (\<bar>sint (Elapsed r)\<bar> div 1000000000)"
    by (simp add: truncated_seconds_def signed_divide_int_def)
next
  assume "below_2_24_seconds r"
  then show "whole_seconds r = truncated_seconds r"
    by (rule truncated_eq_whole)
next
  assume h: "list_all below_2_24_seconds (take (nat (defaultMaxRuns + 1)) (Runs w))"
  show "sint (AverageElapsed w) =
        (sum_list (map truncated_seconds (take (nat (defaultMaxRuns + 1)) (Runs w)))
           sdiv defaultMaxRuns) * 1000000000"
    unfolding AverageElapsed_truncated(2) [OF h]
    by (rule sint_seconds [OF AverageElapsed_truncated(1) [OF h]])
next
  assume "list_all below_2_24_seconds (take (nat (defaultMaxRuns + 1)) (Runs w))
      \<and> list_all below_2_24_seconds (take (nat (defaultMaxRuns + 1)) (Runs w'))
      \<and> map truncated_seconds (take (nat (defaultMaxRuns + 1)) (Runs w))
          = map truncated_seconds (take (nat (defaultMaxRuns + 1)) (Runs w'))"
  then have h: "list_all below_2_24_seconds (take (nat (defaultMaxRuns + 1)) (Runs w))"
    and h': "list_all below_2_24_seconds (take (nat (defaultMaxRuns + 1)) (Runs w'))"
    and eq: "map truncated_seconds (take (nat (defaultMaxRuns + 1)) (Runs w))
          = map truncated_seconds (take (nat (defaultMaxRuns + 1)) (Runs w'))"
    by simp_all
  show "AverageElapsed w = AverageElapsed w'"
    unfolding AverageElapsed_truncated(2) [OF h] AverageElapsed_truncated(2) [OF h'] eq ..
qed

lemma sample_long_seconds:
  "map whole_seconds (take (nat (defaultMaxRuns + 1)) (Runs sample_long_a)) = [16777220]"
proof -
  have "map whole_seconds (Runs sample_long_a) = [16777220]"
    unfolding sample_long_a_def timed_run_def whole_seconds_def Seconds_def by code_simp
  moreover have "take (nat (defaultMaxRuns + 1)) (Runs sample_long_a) = Runs sample_long_a"
    by (simp add: sample_long_a_def defaultMaxRuns_def)
  ultimately show ?thesis by (simp only:)
qed

theorem AverageElapsed_truncates_witness:
  "list_all below_2_24_seconds (take (nat (defaultMaxRuns + 1)) (Runs sample_quick))
   \<and> list_all below_2_24_seconds (take (nat (defaultMaxRuns + 1)) (Runs sample_quick_b))
   \<and> map truncated_seconds (take (nat (defaultMaxRuns + 1)) (Runs sample_quick)) = [90, 31]
   \<and> map truncated_seconds (take (nat (defaultMaxRuns + 1)) (Runs sample_quick_b)) = [90, 31]
   \<and> sint (AverageElapsed sample_quick) = 24000000000
   \<and> AverageElapsed sample_quick = AverageElapsed sample_quick_b
   \<and> below_2_24_seconds (timed_run 90250000000)
   \<and> whole_seconds (timed_run 90250000000) = 90
   \<and> \<bar>sum_list (map whole_seconds (take (nat (defaultMaxRuns + 1)) (Runs sample_long_a)))
         sdiv defaultMaxRuns\<bar> \<le> 9223372036
   \<and> sint (AverageElapsed sample_long_a) = 3355444000000000
   \<and> 9223372036 <
        \<bar>sum_list (map whole_seconds (take (nat (defaultMaxRuns + 1)) (Runs sample_endless)))
           sdiv defaultMaxRuns\<bar>
   \<and> sint (AverageElapsed sample_endless) = 0"
proof -
  have h: "list_all below_2_24_seconds (take (nat (defaultMaxRuns + 1)) (Runs sample_quick))"
    "list_all below_2_24_seconds (take (nat (defaultMaxRuns + 1)) (Runs sample_quick_b))"
    by (simp_all add: sample_quick_def sample_quick_b_def timed_run_def defaultMaxRuns_def
        below_2_24_seconds_def)
  have t: "map truncated_seconds (take (nat (defaultMaxRuns + 1)) (Runs sample_quick)) = [90, 31]"
    "map truncated_seconds (take (nat (defaultMaxRuns + 1)) (Runs sample_quick_b)) = [90, 31]"
    by (simp_all add: sample_quick_def sample_quick_b_def timed_run_def defaultMaxRuns_def
        truncated_seconds_def signed_divide_int_def)
  have q: "(121::int) sdiv 5 = 24" "(16777220::int) sdiv 5 = 3355444"
    by (simp_all add: signed_divide_int_def)
  have b: "below_2_24_seconds (timed_run 90250000000)"
    by (simp add: below_2_24_seconds_def timed_run_def)
  have tr: "truncated_seconds (timed_run 90250000000) = 90"
    by (simp add: truncated_seconds_def timed_run_def signed_divide_int_def)
  have small: "\<bar>sum_list (map whole_seconds (take (nat (defaultMaxRuns + 1)) (Runs sample_long_a)))
         sdiv defaultMaxRuns\<bar> \<le> 9223372036"
    unfolding sample_long_seconds by (simp add: defaultMaxRuns_def q)
  have big: "9223372036 <
        \<bar>sum_list (map whole_seconds (take (nat (defaultMaxRuns + 1)) (Runs sample_endless)))
           sdiv defaultMaxRuns\<bar>"
    unfolding sample_endless_quotient by simp
  note T = AverageElapsed_truncates [of sample_quick 0 "timed_run 90250000000" sample_quick_b]
  note L = AverageElapsed_truncates [of sample_long_a 0 "timed_run 90250000000" sample_quick_b]
  note E = AverageElapsed_truncates [of sample_endless 0 "timed_run 90250000000" sample_quick_b]
  from T have "sint (AverageElapsed sample_quick) =
      (sum_list (map truncated_seconds (take (nat (defaultMaxRuns + 1)) (Runs sample_quick)))
         sdiv defaultMaxRuns) * 1000000000"
    by (simp only: h simp_thms)
  then have s: "sint (AverageElapsed sample_quick) = 24000000000"
    by (simp only: t) (simp add: defaultMaxRuns_def q)
  from T have e: "AverageElapsed sample_quick = AverageElapsed sample_quick_b"
    by (simp only: h t simp_thms)
  from T b have "whole_seconds (timed_run 90250000000) = truncated_seconds (timed_run 90250000000)"
    by (simp only: simp_thms)
  then have w: "whole_seconds (timed_run 90250000000) = 90"
    by (simp only: tr)
  from L small have "sint (AverageElapsed sample_long_a) =
        (sum_list (map whole_seconds (take (nat (defaultMaxRuns + 1)) (Runs sample_long_a)))
           sdiv defaultMaxRuns) * 1000000000"
    by (simp only: simp_thms)
  then have l: "sint (AverageElapsed sample_long_a) = 3355444000000000"
    unfolding sample_long_seconds by (simp add: defaultMaxRuns_def q)
  from E big have "AverageElapsed sample_endless = 0"
    by (simp only: simp_thms)
  then have z: "sint (AverageElapsed sample_endless) = 0"
    by simp
  from h t s e b w small l big z show ?thesis
    by (intro conjI)
qed

text \<open>
  The claim as worded fails from \<open>2\<^sup>2\<^sup>4\<close> seconds on. A run that took
  16777219.999999999 seconds: the \<open>float64\<close> sum of 16777219 and 0.999999999 rounds to
  16777220, so the average is 3355444 seconds, and not the 3355443 seconds of a run that
  took 16777219 seconds, which has the same whole seconds.
\<close>

theorem AverageElapsed_rounds_up:
  "map truncated_seconds (Runs sample_long_a) = [16777219]
   \<and> map truncated_seconds (Runs sample_long_b) = [16777219]
   \<and> sint (AverageElapsed sample_long_a) = 3355444000000000
   \<and> sint (AverageElapsed sample_long_b) = 3355443000000000"
proof -
  have t: "map truncated_seconds (Runs sample_long_a) = [16777219]"
    "map truncated_seconds (Runs sample_long_b) = [16777219]"
    by (simp_all add: sample_long_a_def sample_long_b_def timed_run_def truncated_seconds_def
        signed_divide_int_def)
  have ws: "map whole_seconds (Runs sample_long_a) = [16777220]"
    "map whole_seconds (Runs sample_long_b) = [16777219]"
    unfolding sample_long_a_def sample_long_b_def timed_run_def whole_seconds_def Seconds_def
    by code_simp+
  have tk: "take (nat (defaultMaxRuns + 1)) (Runs sample_long_a) = Runs sample_long_a"
    "take (nat (defaultMaxRuns + 1)) (Runs sample_long_b) = Runs sample_long_b"
    by (simp_all add: sample_long_a_def sample_long_b_def defaultMaxRuns_def)
  have q: "(16777220::int) sdiv 5 = 3355444" "(16777219::int) sdiv 5 = 3355443"
    by (simp_all add: signed_divide_int_def)
  have "AverageElapsed sample_long_a = 3355444000000000"
    "AverageElapsed sample_long_b = 3355443000000000"
    unfolding AverageElapsed_eq tk ws
    by (simp_all add: defaultMaxRuns_def q ParseDuration_seconds_def)
  with t show ?thesis by simp
qed

end
